theory Spec2Isabelle
  imports Complex_Main "HOL-Library.Sublist"
begin

section \<open>Values\<close>

text \<open>
  Scopes live on a heap and are referred to by identity (\<open>is\<close> in the source), so a
  scope reference is an address.
\<close>

type_synonym sid = nat

text \<open>
  The floats of the source are durations and time stamps. They are modelled as exact
  reals extended with \<open>math.inf\<close>: rounding, NaN and minus infinity are outside the model.
\<close>

datatype pyfloat = Fin real | PInf

fun f_lt :: "pyfloat \<Rightarrow> pyfloat \<Rightarrow> bool" where
  "f_lt (Fin a) (Fin b) = (a < b)"
| "f_lt (Fin a) PInf = True"
| "f_lt PInf b = False"

text \<open>Python's two-argument \<open>min(a, b)\<close>: \<open>b\<close> when \<open>b < a\<close>, else \<open>a\<close>.\<close>

definition py_min :: "pyfloat \<Rightarrow> pyfloat \<Rightarrow> pyfloat" where
  "py_min a b = (if f_lt b a then b else a)"

text \<open>\<open>self._entered + self._timeout\<close>\<close>

fun f_add :: "real \<Rightarrow> pyfloat \<Rightarrow> pyfloat" where
  "f_add t (Fin d) = Fin (t + d)"
| "f_add t PInf = PInf"

text \<open>\<open>self._deadline - time.time()\<close>\<close>

fun f_sub :: "pyfloat \<Rightarrow> real \<Rightarrow> pyfloat" where
  "f_sub (Fin d) t = Fin (d - t)"
| "f_sub PInf t = PInf"

text \<open>\<open>x <= 0\<close> and \<open>x > 0\<close>\<close>

fun f_le0 :: "pyfloat \<Rightarrow> bool" where
  "f_le0 (Fin r) = (r \<le> 0)"
| "f_le0 PInf = False"

fun f_gt0 :: "pyfloat \<Rightarrow> bool" where
  "f_gt0 (Fin r) = (0 < r)"
| "f_gt0 PInf = True"

text \<open>
  The exceptions the module can raise. \<open>UserExc k\<close> is the exception instance a caller
  passed as \<open>exc\<close>; \<open>RuntimeError\<close> is the "already entered" error, \<open>ValueError\<close> the
  rejection of a scope as its own child. \<open>TypeError\<close> and \<open>IndexError\<close> are what the
  interpreter raises for \<open>None - float\<close>, \<open>ContextVar.reset(None)\<close> and an
  out-of-range \<open>del\<close>.
\<close>

datatype pyexc = RuntimeError | ValueError | TypeError | IndexError | CancelledError | UserExc nat

datatype 'a outcome = Return 'a | Raise pyexc

section \<open>The scope object and the program state\<close>

text \<open>
  One field per attribute set in \<open>__init__\<close> (the lock is treated separately, see
  \<open>u_cancel\<close>). A \<open>Token\<close> is modelled by the value it restores.
\<close>

record scope =
  f_timeout :: "pyfloat option"
  f_shield :: bool
  f_exc :: "nat option"
  f_entered :: "real option"
  f_deadline :: "pyfloat option"
  f_token :: "sid option option"
  f_cancelled :: bool
  f_parent :: "sid option"
  f_children :: "sid list"
  f_on_enter :: bool
  f_on_exit :: bool

text \<open>\<open>CancelScope.__init__\<close>: the object as constructed.\<close>

definition init :: "pyfloat option \<Rightarrow> bool \<Rightarrow> nat option \<Rightarrow> bool \<Rightarrow> bool \<Rightarrow> scope" where
  "init timeout shield exc on_enter on_exit =
     \<lparr> f_timeout = timeout, f_shield = shield, f_exc = exc, f_entered = None,
       f_deadline = None, f_token = None, f_cancelled = False, f_parent = None,
       f_children = [], f_on_enter = on_enter, f_on_exit = on_exit \<rparr>"

text \<open>
  The state: the heap of scope objects, the context variable \<open>_current_cancel_scope\<close>
  of the one execution context considered, and the wall clock, given as the sequence of
  values that successive calls of \<open>time.time()\<close> return. \<open>trace\<close> is not program
  state: it records, in call order, the scopes on which \<open>_cancel\<close> is invoked, so that
  the order of the sweep can be stated.
\<close>

record state =
  heap :: "sid \<Rightarrow> scope"
  current :: "sid option"
  clock :: "nat \<Rightarrow> real"
  ticks :: nat
  trace :: "sid list"

definition upd :: "sid \<Rightarrow> (scope \<Rightarrow> scope) \<Rightarrow> state \<Rightarrow> state" where
  "upd x f s = s\<lparr>heap := (heap s)(x := f (heap s x))\<rparr>"

text \<open>\<open>time.time()\<close>\<close>

definition time :: "state \<Rightarrow> real \<times> state" where
  "time s = (clock s (ticks s), s\<lparr>ticks := Suc (ticks s)\<rparr>)"

section \<open>The methods\<close>

text \<open>\<open>del xs[i]\<close> for an index in range.\<close>

definition del_at :: "nat \<Rightarrow> 'a list \<Rightarrow> 'a list" where
  "del_at i xs = take i xs @ drop (Suc i) xs"

text \<open>
  \<open>CancelScope._cancel\<close> and its loop over the children. The recursion follows the
  heap, so it is bounded by fuel: \<open>None\<close> means that the call does not return. The
  set \<open>held\<close> holds the scopes whose (non-reentrant) lock the running thread has
  already taken; taking one of them again blocks for ever. The loop iterates over a
  snapshot of \<open>reversed(list(enumerate(self._children)))\<close> and deletes by index from the
  live list.
\<close>

fun u_cancel :: "nat \<Rightarrow> sid set \<Rightarrow> state \<Rightarrow> sid \<Rightarrow> sid \<Rightarrow> (bool outcome \<times> state) option"
  and cancel_loop :: "nat \<Rightarrow> sid set \<Rightarrow> state \<Rightarrow> sid \<Rightarrow> (nat \<times> sid) list \<Rightarrow> (unit outcome \<times> state) option"
where
  "u_cancel 0 held s self cs = None"
| "u_cancel (Suc n) held s self cs =
     (if self \<in> held then None
      else
        let s0 = s\<lparr>trace := trace s @ [self]\<rparr> in
        if f_cancelled (heap s0 self) then Some (Return True, s0)
        else if Some cs = f_parent (heap s0 self) \<and> f_shield (heap s0 self) then Some (Return False, s0)
        else
          let s1 = upd self (\<lambda>sc. sc\<lparr>f_cancelled := True\<rparr>) s0 in
          (case cancel_loop n (insert self held) s1 self (rev (enumerate 0 (f_children (heap s1 self)))) of
             None \<Rightarrow> None
           | Some (Raise e, s2) \<Rightarrow> Some (Raise e, s2)
           | Some (Return u, s2) \<Rightarrow> Some (Return True, s2)))"
| "cancel_loop n held s self [] = Some (Return (), s)"
| "cancel_loop n held s self ((i, child) # rest) =
     (case u_cancel n held s child self of
        None \<Rightarrow> None
      | Some (Raise e, s1) \<Rightarrow> Some (Raise e, s1)
      | Some (Return b, s1) \<Rightarrow>
          if i < length (f_children (heap s1 self))
          then cancel_loop n held (upd self (\<lambda>sc. sc\<lparr>f_children := del_at i (f_children sc)\<rparr>) s1) self rest
          else Some (Raise IndexError, s1))"

text \<open>\<open>CancelScope.cancel\<close>\<close>

definition cancel :: "nat \<Rightarrow> state \<Rightarrow> sid \<Rightarrow> (bool outcome \<times> state) option" where
  "cancel n s self = u_cancel n {} s self self"

text \<open>\<open>CancelScope.cancelled\<close>\<close>

definition cancelled :: "state \<Rightarrow> sid \<Rightarrow> bool" where
  "cancelled s self = f_cancelled (heap s self)"

text \<open>
  \<open>CancelScope.timeout\<close>. In the last branch the left operand \<open>self._deadline\<close> is read,
  then the clock, then the subtraction is done, which raises for a missing deadline.
\<close>

definition timeout :: "state \<Rightarrow> sid \<Rightarrow> pyfloat outcome \<times> state" where
  "timeout s self =
     (if f_cancelled (heap s self) then (Return (Fin 0), s)
      else case f_timeout (heap s self) of
        None \<Rightarrow> (Return PInf, s)
      | Some t \<Rightarrow>
         (case f_entered (heap s self) of
            None \<Rightarrow> (Return t, s)
          | Some e \<Rightarrow>
             (let (now, s1) = time s in
              case f_deadline (heap s self) of
                None \<Rightarrow> (Raise TypeError, s1)
              | Some d \<Rightarrow>
                 (let remsecs = f_sub d now in
                  (Return (if f_le0 remsecs then Fin 0 else remsecs), s1)))))"

text \<open>\<open>CancelScope.check\<close>\<close>

definition check :: "state \<Rightarrow> sid \<Rightarrow> unit outcome \<times> state" where
  "check s self =
     (case timeout s self of
        (Raise e, s1) \<Rightarrow> (Raise e, s1)
      | (Return v, s1) \<Rightarrow>
          if f_gt0 v then (Return (), s1)
          else (case f_exc (heap s1 self) of
                  None \<Rightarrow> (Raise CancelledError, s1)
                | Some k \<Rightarrow> (Raise (UserExc k), s1)))"

text \<open>\<open>CancelScope._add_child\<close>, run on the parent \<open>self\<close> under its lock.\<close>

definition u_add_child :: "nat \<Rightarrow> state \<Rightarrow> sid \<Rightarrow> sid \<Rightarrow> (unit outcome \<times> state) option" where
  "u_add_child n s self child =
     (if child = self then Some (Raise ValueError, s)
      else if f_cancelled (heap s self) then
        (case u_cancel n {self} s child self of
           None \<Rightarrow> None
         | Some (Raise e, s1) \<Rightarrow> Some (Raise e, s1)
         | Some (Return b, s1) \<Rightarrow> Some (Return (), s1))
      else Some (Return (), upd self (\<lambda>sc. sc\<lparr>f_children := f_children sc @ [child]\<rparr>) s))"

text \<open>
  \<open>CancelScope.__enter__\<close>, in parts: the linking to the parent (lines 71 to 82),
  the deadline (lines 83 and 84, where \<open>None + float\<close> would raise), the check and the
  setting of the context variable (lines 85 to 88), and the whole method.
\<close>

definition enter_link :: "nat \<Rightarrow> state \<Rightarrow> sid \<Rightarrow> (unit outcome \<times> state) option" where
  "enter_link n s self =
     (case f_parent (heap s self) of
        None \<Rightarrow> Some (Return (), s)
      | Some p \<Rightarrow>
         (case u_add_child n s p self of
            None \<Rightarrow> None
          | Some (Raise e, s1) \<Rightarrow> Some (Raise e, s1)
          | Some (Return u, s1) \<Rightarrow>
             (let s2 = (if f_exc (heap s1 self) = None
                        then upd self (\<lambda>sc. sc\<lparr>f_exc := f_exc (heap s1 p)\<rparr>) s1 else s1) in
              if \<not> f_shield (heap s2 self) then
                (case timeout s2 p of
                   (Raise e, s3) \<Rightarrow> Some (Raise e, s3)
                 | (Return parent_timeout, s3) \<Rightarrow>
                     Some (Return (),
                       upd self (\<lambda>sc. sc\<lparr>f_timeout :=
                         (case f_timeout sc of
                            None \<Rightarrow> Some parent_timeout
                          | Some t \<Rightarrow> Some (py_min t parent_timeout))\<rparr>) s3))
              else Some (Return (), s2))))"

definition set_deadline :: "state \<Rightarrow> sid \<Rightarrow> unit outcome \<times> state" where
  "set_deadline s self =
     (case f_timeout (heap s self) of
        None \<Rightarrow> (Return (), s)
      | Some t \<Rightarrow>
         (case f_entered (heap s self) of
            None \<Rightarrow> (Raise TypeError, s)
          | Some e \<Rightarrow> (Return (), upd self (\<lambda>sc. sc\<lparr>f_deadline := Some (f_add e t)\<rparr>) s)))"

definition enter_finish :: "state \<Rightarrow> sid \<Rightarrow> sid outcome \<times> state" where
  "enter_finish s self =
     (case set_deadline s self of
        (Raise e, s1) \<Rightarrow> (Raise e, s1)
      | (Return u, s1) \<Rightarrow>
         (case (if f_on_enter (heap s1 self) then check s1 self else (Return (), s1)) of
            (Raise e, s2) \<Rightarrow> (Raise e, s2)
          | (Return u, s2) \<Rightarrow>
              (Return self,
               (upd self (\<lambda>sc. sc\<lparr>f_token := Some (current s2)\<rparr>) s2)\<lparr>current := Some self\<rparr>)))"

definition enter :: "nat \<Rightarrow> state \<Rightarrow> sid \<Rightarrow> (sid outcome \<times> state) option" where
  "enter n s self =
     (if f_entered (heap s self) \<noteq> None then Some (Raise RuntimeError, s)
      else
        let (t, s1) = time s;
            s2 = upd self (\<lambda>sc. sc\<lparr>f_entered := Some t\<rparr>) s1;
            s3 = upd self (\<lambda>sc. sc\<lparr>f_parent := current s2\<rparr>) s2 in
        case enter_link n s3 self of
          None \<Rightarrow> None
        | Some (Raise e, s4) \<Rightarrow> Some (Raise e, s4)
        | Some (Return u, s4) \<Rightarrow> Some (enter_finish s4 self))"

text \<open>
  \<open>CancelScope.__exit__\<close>; \<open>raised\<close> says whether \<open>exc_val\<close> is not \<open>None\<close>.
  \<open>reset\<close> of a \<open>None\<close> token raises \<open>TypeError\<close> before anything is changed.
\<close>

definition exit :: "state \<Rightarrow> sid \<Rightarrow> bool \<Rightarrow> unit outcome \<times> state" where
  "exit s self raised =
     (case f_token (heap s self) of
        None \<Rightarrow> (Raise TypeError, s)
      | Some old \<Rightarrow>
          (let s1 = s\<lparr>current := old\<rparr>;
               s2 = upd self (\<lambda>sc. sc\<lparr>f_token := None\<rparr>) s1 in
           if raised \<and> f_on_exit (heap s2 self) then check s2 self else (Return (), s2)))"

section \<open>Sequences of calls\<close>

text \<open>
  The public interface as a datatype of calls, and the state a call leaves behind,
  whether it returns or raises. \<open>None\<close> is kept for a call that does not return.
\<close>

datatype call = Enter sid | Exit sid bool | Cancel sid | Cancelled sid | RemainingTimeout sid | Check sid

fun exec :: "nat \<Rightarrow> state \<Rightarrow> call \<Rightarrow> state option" where
  "exec n s (Enter x) = map_option snd (enter n s x)"
| "exec n s (Exit x raised) = Some (snd (exit s x raised))"
| "exec n s (Cancel x) = map_option snd (cancel n s x)"
| "exec n s (Cancelled x) = Some s"
| "exec n s (RemainingTimeout x) = Some (snd (timeout s x))"
| "exec n s (Check x) = Some (snd (check s x))"

fun run :: "nat \<Rightarrow> state \<Rightarrow> call list \<Rightarrow> state option" where
  "run n s [] = Some s"
| "run n s (c # cs) = (case exec n s c of None \<Rightarrow> None | Some s1 \<Rightarrow> run n s1 cs)"

text \<open>
  A program starts with no current scope; the scopes it will use are on the heap as
  \<open>__init__\<close> leaves them (construction has no other effect).
\<close>

definition constructed :: "scope \<Rightarrow> bool" where
  "constructed sc \<longleftrightarrow>
     sc = init (f_timeout sc) (f_shield sc) (f_exc sc) (f_on_enter sc) (f_on_exit sc)"

definition start :: "(sid \<Rightarrow> scope) \<Rightarrow> (nat \<Rightarrow> real) \<Rightarrow> state" where
  "start objs clk = \<lparr> heap = objs, current = None, clock = clk, ticks = 0, trace = [] \<rparr>"

section \<open>What a cancellation may change\<close>

definition same_config :: "scope \<Rightarrow> scope \<Rightarrow> bool" where
  "same_config a b \<longleftrightarrow>
     f_timeout b = f_timeout a \<and> f_shield b = f_shield a \<and> f_exc b = f_exc a \<and>
     f_entered b = f_entered a \<and> f_deadline b = f_deadline a \<and> f_token b = f_token a \<and>
     f_parent b = f_parent a \<and> f_on_enter b = f_on_enter a \<and> f_on_exit b = f_on_exit a"

definition only_cancels :: "state \<Rightarrow> state \<Rightarrow> bool" where
  "only_cancels s s' \<longleftrightarrow>
     current s' = current s \<and> clock s' = clock s \<and> ticks s' = ticks s \<and>
     (\<forall>x. same_config (heap s x) (heap s' x) \<and>
          (f_cancelled (heap s x) \<longrightarrow> f_cancelled (heap s' x)) \<and>
          subseq (f_children (heap s' x)) (f_children (heap s x)))"

text \<open>\<open>self._timeout or +inf\<close>: an unset timeout is no bound.\<close>

definition eff :: "pyfloat option \<Rightarrow> pyfloat" where
  "eff t = (case t of None \<Rightarrow> PInf | Some d \<Rightarrow> d)"

text \<open>The order of the floats, so that \<open>min\<close> can be written.\<close>

instantiation pyfloat :: linorder
begin

definition less_pyfloat :: "pyfloat \<Rightarrow> pyfloat \<Rightarrow> bool" where
  "less_pyfloat a b = f_lt a b"

definition less_eq_pyfloat :: "pyfloat \<Rightarrow> pyfloat \<Rightarrow> bool" where
  "less_eq_pyfloat a b = (\<not> f_lt b a)"

instance
proof
  fix x y z :: pyfloat
  show "(x < y) = (x \<le> y \<and> \<not> y \<le> x)"
    by (cases x; cases y) (auto simp: less_pyfloat_def less_eq_pyfloat_def)
  show "x \<le> x"
    by (cases x) (auto simp: less_eq_pyfloat_def)
  show "x \<le> y \<Longrightarrow> y \<le> z \<Longrightarrow> x \<le> z"
    by (cases x; cases y; cases z) (auto simp: less_eq_pyfloat_def)
  show "x \<le> y \<Longrightarrow> y \<le> x \<Longrightarrow> x = y"
    by (cases x; cases y) (auto simp: less_eq_pyfloat_def)
  show "x \<le> y \<or> y \<le> x"
    by (cases x; cases y) (auto simp: less_eq_pyfloat_def)
qed

end

text \<open>
  What no call ever undoes: a set cancelled flag and a set entry time stamp.
\<close>

definition keeps :: "state \<Rightarrow> state \<Rightarrow> bool" where
  "keeps s s' \<longleftrightarrow>
     (\<forall>x. (f_cancelled (heap s x) \<longrightarrow> f_cancelled (heap s' x)) \<and>
          (\<forall>t. f_entered (heap s x) = Some t \<longrightarrow> f_entered (heap s' x) = Some t))"

text \<open>
  What the linking of a scope \<open>c\<close> to its parent leaves alone: the context variable, the
  clock, and every field but the flags and children lists, and the exception and
  timeout of \<open>c\<close> itself.
\<close>

definition linked :: "sid \<Rightarrow> state \<Rightarrow> state \<Rightarrow> bool" where
  "linked c s s' \<longleftrightarrow>
     current s' = current s \<and> clock s' = clock s \<and>
     (\<forall>x. f_token (heap s' x) = f_token (heap s x) \<and> f_shield (heap s' x) = f_shield (heap s x) \<and>
          f_on_enter (heap s' x) = f_on_enter (heap s x) \<and>
          f_on_exit (heap s' x) = f_on_exit (heap s x) \<and>
          f_entered (heap s' x) = f_entered (heap s x) \<and>
          f_parent (heap s' x) = f_parent (heap s x) \<and>
          f_deadline (heap s' x) = f_deadline (heap s x) \<and>
          (x \<noteq> c \<longrightarrow> f_exc (heap s' x) = f_exc (heap s x) \<and>
                     f_timeout (heap s' x) = f_timeout (heap s x)))"

text \<open>The state of \<open>__enter__\<close> after lines 66 and 67.\<close>

definition enter_begin :: "state \<Rightarrow> sid \<Rightarrow> state" where
  "enter_begin s c = upd c (\<lambda>sc. sc\<lparr>f_parent := current s\<rparr>)
        (upd c (\<lambda>sc. sc\<lparr>f_entered := Some (fst (time s))\<rparr>) (snd (time s)))"

text \<open>A scope constructed with the defaults.\<close>

definition plain :: scope where
  "plain = init None False None False False"

section \<open>Example states\<close>

text \<open>Clocks, heaps and states that the concrete checks below run on.\<close>

definition clock0 :: "nat \<Rightarrow> real" where
  "clock0 n = 0"

definition clock01 :: "nat \<Rightarrow> real" where
  "clock01 n = (if n = 0 then 0 else 1)"

definition two_timeouts :: "sid \<Rightarrow> scope" where
  "two_timeouts = (\<lambda>_. plain)(0 := init (Some (Fin 5)) False None False False,
                              1 := init (Some (Fin 10)) False None False False)"

definition S1_before :: state where
  "S1_before = the (run 1 (start two_timeouts clock01) [Enter 0])"

definition eager_child :: "sid \<Rightarrow> scope" where
  "eager_child = (\<lambda>_. plain)(1 := init None False None True False)"

definition dead_parent :: state where
  "dead_parent = the (run 2 (start eager_child clock0) [Enter 0, Cancel 0])"

definition hasty_child :: "sid \<Rightarrow> scope" where
  "hasty_child = (\<lambda>_. plain)(1 := init (Some (Fin 0)) False None True False)"

definition live_parent :: state where
  "live_parent = the (run 1 (start hasty_child clock0) [Enter 0])"

definition cancelled_root :: state where
  "cancelled_root = the (run 1 (start (\<lambda>_. plain) clock0) [Cancel 0])"

section \<open>The tree of scopes\<close>

text \<open>
  What a returned \<open>_cancel\<close> has done: scopes that were cancelled before are as they
  were, and the scopes it cancelled have no children left.
\<close>

definition tidy :: "state \<Rightarrow> state \<Rightarrow> bool" where
  "tidy s s' \<longleftrightarrow>
     (\<forall>x. f_cancelled (heap s x) \<longrightarrow> heap s' x = heap s x) \<and>
     (\<forall>x. f_cancelled (heap s' x) \<and> \<not> f_cancelled (heap s x) \<longrightarrow> f_children (heap s' x) = [])"

text \<open>
  \<open>depth_le d h x\<close>: below \<open>x\<close> the children lists go at most \<open>d\<close> levels deep.
  \<open>desc h s x\<close>: \<open>x\<close> is registered in the subtree of \<open>s\<close>, that is, reachable from
  \<open>s\<close> through children lists. \<open>shrinks\<close>: children lists only lose members.
\<close>

fun depth_le :: "nat \<Rightarrow> (sid \<Rightarrow> scope) \<Rightarrow> sid \<Rightarrow> bool" where
  "depth_le 0 h x = (f_children (h x) = [])"
| "depth_le (Suc d) h x = (\<forall>c \<in> set (f_children (h x)). depth_le d h c)"

inductive desc :: "(sid \<Rightarrow> scope) \<Rightarrow> sid \<Rightarrow> sid \<Rightarrow> bool" for h s where
  child: "c \<in> set (f_children (h s)) \<Longrightarrow> desc h s c"
| step: "desc h s x \<Longrightarrow> c \<in> set (f_children (h x)) \<Longrightarrow> desc h s c"

definition shrinks :: "(sid \<Rightarrow> scope) \<Rightarrow> (sid \<Rightarrow> scope) \<Rightarrow> bool" where
  "shrinks h h' \<longleftrightarrow> (\<forall>y. set (f_children (h' y)) \<subseteq> set (f_children (h y)))"

section \<open>The invariant of reachable states\<close>

text \<open>
  The heap part: every registered child points back to the scope it is registered with,
  no child is registered twice, a cancelled scope has no registered children, and the
  children lists have bounded depth (so they form a forest).
\<close>

definition wf_heap :: "(sid \<Rightarrow> scope) \<Rightarrow> bool" where
  "wf_heap h \<longleftrightarrow>
     (\<forall>p c. c \<in> set (f_children (h p)) \<longrightarrow> f_parent (h c) = Some p) \<and>
     (\<forall>p. distinct (f_children (h p))) \<and>
     (\<forall>p. f_cancelled (h p) \<longrightarrow> f_children (h p) = []) \<and>
     (\<exists>d. \<forall>x. depth_le d h x)"

text \<open>
  Parent pointers lead from entered scopes to other, entered scopes; the current scope
  and the scopes that tokens restore are entered.
\<close>

definition core :: "state \<Rightarrow> bool" where
  "core s \<longleftrightarrow> wf_heap (heap s) \<and>
     (\<forall>c p. f_parent (heap s c) = Some p \<longrightarrow>
        p \<noteq> c \<and> f_entered (heap s c) \<noteq> None \<and> f_entered (heap s p) \<noteq> None) \<and>
     (\<forall>p. current s = Some p \<longrightarrow> f_entered (heap s p) \<noteq> None) \<and>
     (\<forall>c p. f_token (heap s c) = Some (Some p) \<longrightarrow> f_entered (heap s p) \<noteq> None)"

text \<open>
  What entering fixes for a scope \<open>c\<close>: its deadline is its entry time plus its timeout
  (and there is none before the entry or without a timeout);
  if it has no exception its parent has none; and if it is not shielded and has no finite
  timeout, its parent has none either.
\<close>

definition lawful :: "(sid \<Rightarrow> scope) \<Rightarrow> sid \<Rightarrow> bool" where
  "lawful h c \<longleftrightarrow>
     (\<forall>e t. f_entered (h c) = Some e \<longrightarrow> f_timeout (h c) = Some t \<longrightarrow>
        f_deadline (h c) = Some (f_add e t)) \<and>
     (f_entered (h c) = None \<or> f_timeout (h c) = None \<longrightarrow> f_deadline (h c) = None) \<and>
     (\<forall>p. f_parent (h c) = Some p \<longrightarrow> f_exc (h c) = None \<longrightarrow> f_exc (h p) = None) \<and>
     (\<forall>p. f_parent (h c) = Some p \<longrightarrow> \<not> f_shield (h c) \<longrightarrow>
        eff (f_timeout (h c)) = PInf \<longrightarrow> eff (f_timeout (h p)) = PInf)"

definition scope_inv :: "state \<Rightarrow> bool" where
  "scope_inv s \<longleftrightarrow> core s \<and> (\<forall>c. lawful (heap s) c)"

definition shielded_child :: "sid \<Rightarrow> scope" where
  "shielded_child = (\<lambda>_. plain)(1 := init None True None False False)"

definition shielded_pair :: state where
  "shielded_pair = the (run 1 (start shielded_child clock0) [Enter 0, Enter 1])"

definition shielded_pair_cancelled :: state where
  "shielded_pair_cancelled = the (run 1 (start shielded_child clock0) [Enter 0, Enter 1, Cancel 1])"

text \<open>
  The nearest exception found walking from a scope toward the root, and the exception
  that \<open>check\<close> raises for a stored \<open>_exc\<close>.
\<close>

fun nearest_exc :: "nat \<Rightarrow> (sid \<Rightarrow> scope) \<Rightarrow> sid \<Rightarrow> nat option" where
  "nearest_exc 0 h c = f_exc (h c)"
| "nearest_exc (Suc n) h c =
     (case f_exc (h c) of
        Some k \<Rightarrow> Some k
      | None \<Rightarrow> (case f_parent (h c) of None \<Rightarrow> None | Some p \<Rightarrow> nearest_exc n h p))"

definition raised_kind :: "nat option \<Rightarrow> pyexc" where
  "raised_kind e = (case e of None \<Rightarrow> CancelledError | Some k \<Rightarrow> UserExc k)"

text \<open>
  The effective ancestry chain of a scope: the scope, then its parent unless the scope is
  shielded, and so on.
\<close>

fun chain :: "nat \<Rightarrow> (sid \<Rightarrow> scope) \<Rightarrow> sid \<Rightarrow> sid list" where
  "chain 0 h c = [c]"
| "chain (Suc n) h c =
     c # (if f_shield (h c) then []
          else case f_parent (h c) of None \<Rightarrow> [] | Some p \<Rightarrow> chain n h p)"

text \<open>What is fixed once a scope has been entered.\<close>

definition settled :: "state \<Rightarrow> state \<Rightarrow> bool" where
  "settled s s' \<longleftrightarrow>
     (\<forall>x. f_entered (heap s x) \<noteq> None \<longrightarrow>
        f_exc (heap s' x) = f_exc (heap s x) \<and> f_timeout (heap s' x) = f_timeout (heap s x) \<and>
        f_deadline (heap s' x) = f_deadline (heap s x) \<and> f_parent (heap s' x) = f_parent (heap s x) \<and>
        f_entered (heap s' x) = f_entered (heap s x))"

definition dead_root :: state where
  "dead_root = the (run 1 (start (\<lambda>_. plain) clock0) [Enter 0, Cancel 0])"

definition custom_parent :: "sid \<Rightarrow> scope" where
  "custom_parent = (\<lambda>_. plain)(0 := init None False (Some 7) False False)"

definition custom_running :: state where
  "custom_running = the (run 1 (start custom_parent clock0) [Enter 0])"

definition zero_timeouts :: "sid \<Rightarrow> scope" where
  "zero_timeouts = (\<lambda>_. init (Some (Fin 0)) False None False False)"

section \<open>The sweep of a cancellation, as the specification words it\<close>

text \<open>
  \<open>forest\<close>: the part of the shape of a reachable heap that the sweep relies on: a scope
  in a children list points back to the owner of the list, no list holds a scope twice,
  and the lists are of bounded depth.
\<close>

definition forest :: "(sid \<Rightarrow> scope) \<Rightarrow> bool" where
  "forest h \<longleftrightarrow>
     (\<forall>p c. c \<in> set (f_children (h p)) \<longrightarrow> f_parent (h c) = Some p) \<and>
     (\<forall>p. distinct (f_children (h p))) \<and>
     (\<exists>d. \<forall>x. depth_le d h x)"

text \<open>
  \<open>sub h c\<close>: the scope \<open>c\<close> and all that is registered below it.
\<close>

definition sub :: "(sid \<Rightarrow> scope) \<Rightarrow> sid \<Rightarrow> sid set" where
  "sub h c = insert c {x. desc h c x}"

text \<open>
  The sweep described on the heap as it is when \<open>cancel\<close> is called, with no state
  passed along. \<open>newly n h x origin\<close> is the set of scopes that a call
  \<open>x._cancel(origin)\<close> cancels: none if \<open>x\<close> is cancelled already or refuses its
  parent behind a shield, else \<open>x\<close> and what its children cancel. \<open>sweep_order\<close> is the
  order in which \<open>_cancel\<close> is invoked: depth first, the children of a scope last
  registered first. \<open>swept h T\<close> is the heap with the scopes of \<open>T\<close> cancelled and
  their children lists emptied. The number \<open>n\<close> bounds the depth explored, as the fuel of
  \<open>u_cancel\<close> does.
\<close>

fun newly :: "nat \<Rightarrow> (sid \<Rightarrow> scope) \<Rightarrow> sid \<Rightarrow> sid \<Rightarrow> sid set" where
  "newly 0 h x origin = {}"
| "newly (Suc n) h x origin =
     (if f_cancelled (h x) \<or> (Some origin = f_parent (h x) \<and> f_shield (h x)) then {}
      else insert x (\<Union>c \<in> set (f_children (h x)). newly n h c x))"

fun sweep_order :: "nat \<Rightarrow> (sid \<Rightarrow> scope) \<Rightarrow> sid \<Rightarrow> sid \<Rightarrow> sid list" where
  "sweep_order 0 h x origin = []"
| "sweep_order (Suc n) h x origin =
     x # (if f_cancelled (h x) \<or> (Some origin = f_parent (h x) \<and> f_shield (h x)) then []
          else concat (map (\<lambda>c. sweep_order n h c x) (rev (f_children (h x)))))"

definition swept :: "(sid \<Rightarrow> scope) \<Rightarrow> sid set \<Rightarrow> (sid \<Rightarrow> scope)" where
  "swept h T = (\<lambda>x. if x \<in> T then (h x)\<lparr>f_cancelled := True, f_children := []\<rparr> else h x)"

text \<open>
  \<open>exposed h s x\<close>: \<open>x\<close> is reached from \<open>s\<close> through children lists and neither \<open>x\<close>
  nor a scope between \<open>s\<close> and \<open>x\<close> is shielded. \<open>behind_shield h s x\<close>: \<open>x\<close> is a
  shielded scope registered below \<open>s\<close>, or is registered below such a scope.
\<close>

inductive exposed :: "(sid \<Rightarrow> scope) \<Rightarrow> sid \<Rightarrow> sid \<Rightarrow> bool" for h where
  child: "c \<in> set (f_children (h s)) \<Longrightarrow> \<not> f_shield (h c) \<Longrightarrow> exposed h s c"
| below: "c \<in> set (f_children (h s)) \<Longrightarrow> \<not> f_shield (h c) \<Longrightarrow> exposed h c x \<Longrightarrow> exposed h s x"

inductive behind_shield :: "(sid \<Rightarrow> scope) \<Rightarrow> sid \<Rightarrow> sid \<Rightarrow> bool" for h s where
  shield: "desc h s c \<Longrightarrow> f_shield (h c) \<Longrightarrow> behind_shield h s c"
| under: "behind_shield h s x \<Longrightarrow> c \<in> set (f_children (h x)) \<Longrightarrow> behind_shield h s c"

text \<open>
  A root with three children, the second of them shielded and with a child of its own;
  and a cancelled root with a shielded scope about to be entered under it.
\<close>

definition family_objs :: "sid \<Rightarrow> scope" where
  "family_objs = (\<lambda>_. plain)(2 := init None True None False False)"

definition family :: state where
  "family = the (run 1 (start family_objs clock0)
     [Enter 0, Enter 1, Exit 1 False, Enter 2, Enter 3, Exit 3 False, Exit 2 False, Enter 4])"

definition dead_root_shielded :: state where
  "dead_root_shielded = the (run 1 (start shielded_child clock0) [Enter 0, Cancel 0])"

section \<open>Properties\<close>

subsection \<open>The sweep only sets flags and drops children\<close>

lemma only_cancels_refl: "only_cancels s s"
  unfolding only_cancels_def same_config_def by simp

lemma only_cancels_trans: "only_cancels s t \<Longrightarrow> only_cancels t u \<Longrightarrow> only_cancels s u"
  unfolding only_cancels_def same_config_def
  by (auto intro: subseq_order.trans)

lemma only_cancels_trace: "only_cancels s (s\<lparr>trace := t\<rparr>)"
  unfolding only_cancels_def same_config_def by simp

lemma subseq_del_at: "subseq (del_at i xs) xs"
  unfolding del_at_def
  by (metis append_take_drop_id subseq_append' drop_Suc tl_drop sublist_tl sublist_imp_subseq)

lemma only_cancels_set: "only_cancels s (upd x (\<lambda>sc. sc\<lparr>f_cancelled := True\<rparr>) s)"
  unfolding only_cancels_def same_config_def upd_def by simp

lemma only_cancels_del:
  "only_cancels s (upd x (\<lambda>sc. sc\<lparr>f_children := del_at i (f_children sc)\<rparr>) s)"
  unfolding only_cancels_def same_config_def upd_def by (simp add: subseq_del_at)

lemma u_cancel_only_cancels:
  "u_cancel n held s self cs = Some (r, s') \<Longrightarrow> only_cancels s s'"
  and cancel_loop_only_cancels:
  "cancel_loop n held s self xs = Some (r', s') \<Longrightarrow> only_cancels s s'"
proof (induction n held s self cs and n held s self xs arbitrary: r s' and r' s'
    rule: u_cancel_cancel_loop.induct)
  case (1 held s self cs)
  then show ?case by simp
next
  case (2 n held s self cs)
  let ?s0 = "s\<lparr>trace := trace s @ [self]\<rparr>"
  let ?s1 = "upd self (\<lambda>sc. sc\<lparr>f_cancelled := True\<rparr>) ?s0"
  have a: "only_cancels s ?s0" by (rule only_cancels_trace)
  have b: "only_cancels s ?s1" using a only_cancels_set only_cancels_trans by blast
  from "2.prems" have nh: "self \<notin> held" by (auto split: if_splits)
  show ?case
  proof (cases "f_cancelled (heap ?s0 self) \<or>
      (Some cs = f_parent (heap ?s0 self) \<and> f_shield (heap ?s0 self))")
    case True
    with "2.prems" nh have "s' = ?s0" by (auto simp: Let_def split: if_splits)
    then show ?thesis using a by simp
  next
    case False
    with "2.prems" nh obtain r2 where
      "cancel_loop n (insert self held) ?s1 self
         (rev (enumerate 0 (f_children (heap ?s1 self)))) = Some (r2, s')"
      by (auto simp: Let_def split: if_splits option.splits outcome.splits prod.splits)
    from "2.IH"[OF nh refl _ _ refl this] False have "only_cancels ?s1 s'" by simp
    then show ?thesis using b only_cancels_trans by blast
  qed
next
  case (3 n held s self)
  then show ?case by (simp add: only_cancels_refl)
next
  case (4 n held s self i child rest)
  from "4.prems" obtain r1 s1 where c: "u_cancel n held s child self = Some (r1, s1)"
    by (auto split: option.splits)
  have a: "only_cancels s s1" using "4.IH"(1)[OF c] .
  show ?case
  proof (cases r1)
    case (Raise e)
    with c "4.prems" have "s' = s1" by simp
    then show ?thesis using a by simp
  next
    case (Return b)
    show ?thesis
    proof (cases "i < length (f_children (heap s1 self))")
      case True
      let ?s2 = "upd self (\<lambda>sc. sc\<lparr>f_children := del_at i (f_children sc)\<rparr>) s1"
      from c Return True "4.prems" have "cancel_loop n held ?s2 self rest = Some (r', s')"
        by simp
      from "4.IH"(2)[OF c refl Return True this] have "only_cancels ?s2 s'" .
      then show ?thesis using a only_cancels_del only_cancels_trans by blast
    next
      case False
      with c Return "4.prems" have "s' = s1" by simp
      then show ?thesis using a by simp
    qed
  qed
qed

subsection \<open>Basic facts about the state\<close>

lemma upd_sel [simp]:
  "current (upd x f s) = current s" "clock (upd x f s) = clock s"
  "ticks (upd x f s) = ticks s" "trace (upd x f s) = trace s"
  "heap (upd x f s) x = f (heap s x)" "y \<noteq> x \<Longrightarrow> heap (upd x f s) y = heap s y"
  by (simp_all add: upd_def)

lemma u_cancel_Suc_cases:
  assumes "u_cancel (Suc n) held s self cs = Some (r, s')"
  obtains
    (already) "self \<notin> held" "f_cancelled (heap s self)" "r = Return True"
      "s' = s\<lparr>trace := trace s @ [self]\<rparr>"
  | (refused) "self \<notin> held" "\<not> f_cancelled (heap s self)" "Some cs = f_parent (heap s self)"
      "f_shield (heap s self)" "r = Return False" "s' = s\<lparr>trace := trace s @ [self]\<rparr>"
  | (swept) r2 where "self \<notin> held" "\<not> f_cancelled (heap s self)"
      "\<not> (Some cs = f_parent (heap s self) \<and> f_shield (heap s self))"
      "cancel_loop n (insert self held)
         (upd self (\<lambda>sc. sc\<lparr>f_cancelled := True\<rparr>) (s\<lparr>trace := trace s @ [self]\<rparr>)) self
         (rev (enumerate 0 (f_children (heap s self)))) = Some (r2, s')"
      "r = (case r2 of Return u \<Rightarrow> Return True | Raise e \<Rightarrow> Raise e)"
proof (cases "self \<in> held")
  case True
  with assms show ?thesis by simp
next
  case nh: False
  show ?thesis
  proof (cases "f_cancelled (heap s self)")
    case True
    with assms nh show ?thesis by (intro already) (auto simp: Let_def)
  next
    case nc: False
    show ?thesis
    proof (cases "Some cs = f_parent (heap s self) \<and> f_shield (heap s self)")
      case True
      with assms nh nc show ?thesis by (intro refused) (auto simp: Let_def)
    next
      case False
      with assms nh nc obtain r2 where
        "cancel_loop n (insert self held)
         (upd self (\<lambda>sc. sc\<lparr>f_cancelled := True\<rparr>) (s\<lparr>trace := trace s @ [self]\<rparr>)) self
         (rev (enumerate 0 (f_children (heap s self)))) = Some (r2, s')"
        "r = (case r2 of Return u \<Rightarrow> Return True | Raise e \<Rightarrow> Raise e)"
        by (auto simp: Let_def split: option.splits outcome.splits prod.splits)
      with nh nc False show ?thesis by (intro swept)
    qed
  qed
qed

lemma cancel_loop_Cons_cases:
  assumes "cancel_loop n held s self ((i, child) # rest) = Some (r, s')"
  obtains
    (raised) e where "u_cancel n held s child self = Some (Raise e, s')" "r = Raise e"
  | (index) b where "u_cancel n held s child self = Some (Return b, s')"
      "\<not> i < length (f_children (heap s' self))" "r = Raise IndexError"
  | (continue) b s1 where "u_cancel n held s child self = Some (Return b, s1)"
      "i < length (f_children (heap s1 self))"
      "cancel_loop n held (upd self (\<lambda>sc. sc\<lparr>f_children := del_at i (f_children sc)\<rparr>) s1) self rest
         = Some (r, s')"
  using assms
  by (auto split: option.splits outcome.splits prod.splits if_splits)

lemma keeps_refl: "keeps s s"
  by (simp add: keeps_def)

lemma keeps_trans: "keeps s t \<Longrightarrow> keeps t u \<Longrightarrow> keeps s u"
  by (simp add: keeps_def)

lemma keeps_heap_eq: "heap s' = heap s \<Longrightarrow> keeps s s'"
  by (simp add: keeps_def)

lemma keeps_upd:
  "(f_cancelled (heap s x) \<longrightarrow> f_cancelled (f (heap s x))) \<Longrightarrow>
   (\<And>t. f_entered (heap s x) = Some t \<Longrightarrow> f_entered (f (heap s x)) = Some t) \<Longrightarrow>
   keeps s (upd x f s)"
  by (simp add: keeps_def upd_def)

lemma only_cancels_keeps: "only_cancels s s' \<Longrightarrow> keeps s s'"
  by (simp add: keeps_def only_cancels_def same_config_def)

lemma time_heap:
  "time s = (t, s') \<Longrightarrow>
   heap s' = heap s \<and> current s' = current s \<and> clock s' = clock s \<and> trace s' = trace s"
  by (auto simp: time_def)

lemma timeout_heap:
  "timeout s x = (r, s') \<Longrightarrow> heap s' = heap s \<and> current s' = current s \<and> clock s' = clock s \<and> trace s' = trace s"
  by (auto simp: timeout_def time_def Let_def split: if_splits option.splits)

lemma check_heap:
  "check s x = (r, s') \<Longrightarrow> heap s' = heap s \<and> current s' = current s \<and> clock s' = clock s \<and> trace s' = trace s"
  by (auto simp: check_def split: prod.splits outcome.splits if_splits option.splits dest: timeout_heap)

lemma u_add_child_keeps: "u_add_child n s p c = Some (r, s') \<Longrightarrow> keeps s s'"
  unfolding u_add_child_def
  by (auto split: if_splits option.splits outcome.splits prod.splits 
      simp: keeps_refl keeps_upd dest!: u_cancel_only_cancels only_cancels_keeps)

lemma enter_link_keeps: "enter_link n s c = Some (r, s') \<Longrightarrow> keeps s s'"
proof -
  assume a: "enter_link n s c = Some (r, s')"
  show ?thesis
  proof (cases "f_parent (heap s c)")
    case None
    with a show ?thesis by (simp add: enter_link_def keeps_refl)
  next
    case (Some p)
    with a obtain r1 s1 where ac: "u_add_child n s p c = Some (r1, s1)"
      by (auto simp: enter_link_def split: option.splits)
    have k1: "keeps s s1" using ac by (rule u_add_child_keeps)
    show ?thesis
    proof (cases r1)
      case (Raise e)
      with a Some ac show ?thesis using k1 by (simp add: enter_link_def)
    next
      case (Return u)
      define s2 where "s2 = (if f_exc (heap s1 c) = None
                        then upd c (\<lambda>sc. sc\<lparr>f_exc := f_exc (heap s1 p)\<rparr>) s1 else s1)"
      have k2: "keeps s1 s2" unfolding s2_def by (auto intro!: keeps_upd keeps_refl)
      show ?thesis
      proof (cases "f_shield (heap s2 c)")
        case True
        with a Some ac Return have "s' = s2" by (simp add: enter_link_def s2_def Let_def)
        then show ?thesis using k1 k2 keeps_trans by blast
      next
        case False
        obtain r3 s3 where t: "timeout s2 p = (r3, s3)" by (cases "timeout s2 p")
        have k3: "keeps s2 s3" using timeout_heap[OF t] by (simp add: keeps_heap_eq)
        show ?thesis
        proof (cases r3)
          case (Raise e)
          with a Some ac Return False t have "s' = s3" by (simp add: enter_link_def s2_def Let_def)
          then show ?thesis using k1 k2 k3 keeps_trans by blast
        next
          case (Return pt)
          with a Some ac \<open>r1 = Return u\<close> False t have
            "s' = upd c (\<lambda>sc. sc\<lparr>f_timeout :=
                         (case f_timeout sc of
                            None \<Rightarrow> Some pt
                          | Some t \<Rightarrow> Some (py_min t pt))\<rparr>) s3" 
            by (simp add: enter_link_def s2_def Let_def)
          then have "keeps s3 s'" by (auto intro!: keeps_upd)
          then show ?thesis using k1 k2 k3 keeps_trans by blast
        qed
      qed
    qed
  qed
qed

lemma set_deadline_keeps: "set_deadline s c = (r, s') \<Longrightarrow> keeps s s'"
  by (auto simp: set_deadline_def split: option.splits intro!: keeps_upd keeps_refl)

lemma enter_finish_keeps: "enter_finish s c = (r, s') \<Longrightarrow> keeps s s'"
  unfolding enter_finish_def
  by (auto split: prod.splits outcome.splits if_splits simp: keeps_def upd_def
      dest!: set_deadline_keeps check_heap)

lemma enter_keeps: "enter n s c = Some (r, s') \<Longrightarrow> keeps s s'"
proof -
  assume a: "enter n s c = Some (r, s')"
  show ?thesis
  proof (cases "f_entered (heap s c)")
    case (Some t)
    with a show ?thesis by (simp add: enter_def keeps_refl)
  next
    case None
    define s3 where "s3 = upd c (\<lambda>sc. sc\<lparr>f_parent := current s\<rparr>)
        (upd c (\<lambda>sc. sc\<lparr>f_entered := Some (clock s (ticks s))\<rparr>) (s\<lparr>ticks := Suc (ticks s)\<rparr>))"
    have k0: "keeps s s3" using None by (simp add: keeps_def s3_def upd_def)
    from a None obtain r4 s4 where l: "enter_link n s3 c = Some (r4, s4)"
      by (auto simp: enter_def time_def Let_def s3_def upd_def split: option.splits)
    have k1: "keeps s3 s4" using l by (rule enter_link_keeps)
    show ?thesis
    proof (cases r4)
      case (Raise e)
      with a None l have "s' = s4" by (auto simp: enter_def time_def Let_def s3_def upd_def)
      then show ?thesis using k0 k1 keeps_trans by blast
    next
      case (Return u)
      with a None l have "enter_finish s4 c = (r, s')" 
        by (auto simp: enter_def time_def Let_def s3_def upd_def)
      then have "keeps s4 s'" by (rule enter_finish_keeps)
      then show ?thesis using k0 k1 keeps_trans by blast
    qed
  qed
qed

lemma exit_keeps: "exit s c b = (r, s') \<Longrightarrow> keeps s s'"
  unfolding exit_def
  by (auto split: option.splits if_splits simp: keeps_def upd_def Let_def dest!: check_heap)

lemma exec_keeps: "exec n s c = Some s' \<Longrightarrow> keeps s s'"
proof (cases c)
  case (Enter x)
  then show "exec n s c = Some s' \<Longrightarrow> keeps s s'" by (auto dest: enter_keeps)
next
  case (Exit x b)
  then show "exec n s c = Some s' \<Longrightarrow> keeps s s'" by (cases "exit s x b") (auto dest: exit_keeps)
next
  case (Cancel x)
  then show "exec n s c = Some s' \<Longrightarrow> keeps s s'"
    by (auto simp: cancel_def dest!: u_cancel_only_cancels only_cancels_keeps)
next
  case (Cancelled x)
  then show "exec n s c = Some s' \<Longrightarrow> keeps s s'" by (auto simp: keeps_refl)
next
  case (RemainingTimeout x)
  then show "exec n s c = Some s' \<Longrightarrow> keeps s s'"
    by (cases "timeout s x") (auto dest!: timeout_heap simp: keeps_heap_eq)
next
  case (Check x)
  then show "exec n s c = Some s' \<Longrightarrow> keeps s s'"
    by (cases "check s x") (auto dest!: check_heap simp: keeps_heap_eq)
qed

lemma run_keeps: "run n s cs = Some s' \<Longrightarrow> keeps s s'"
proof (induction cs arbitrary: s)
  case Nil
  then show ?case by (simp add: keeps_refl)
next
  case (Cons c cs)
  then show ?case by (auto split: option.splits dest: exec_keeps intro: keeps_trans)
qed

subsection \<open>The effect of entering\<close>

lemma linked_refl: "linked c s s"
  by (simp add: linked_def)

lemma linked_trans: "linked c s t \<Longrightarrow> linked c t u \<Longrightarrow> linked c s u"
  by (simp add: linked_def)

lemma only_cancels_linked: "only_cancels s s' \<Longrightarrow> linked c s s'"
  by (simp add: linked_def only_cancels_def same_config_def)

lemma timeout_cong:
  "f_cancelled (heap t p) = f_cancelled (heap s p) \<Longrightarrow> f_timeout (heap t p) = f_timeout (heap s p) \<Longrightarrow>
   f_entered (heap t p) = f_entered (heap s p) \<Longrightarrow> f_deadline (heap t p) = f_deadline (heap s p) \<Longrightarrow>
   clock t = clock s \<Longrightarrow> ticks t = ticks s \<Longrightarrow> fst (timeout t p) = fst (timeout s p)"
  by (simp add: timeout_def time_def Let_def split: option.splits)

lemma u_add_child_effect:
  assumes "u_add_child n s p c = Some (r, s')"
  shows "linked c s s' \<and> ticks s' = ticks s \<and> f_cancelled (heap s' p) = f_cancelled (heap s p) \<and>
         f_exc (heap s' c) = f_exc (heap s c) \<and> f_timeout (heap s' c) = f_timeout (heap s c) \<and>
         f_exc (heap s' p) = f_exc (heap s p) \<and> f_timeout (heap s' p) = f_timeout (heap s p) \<and>
         (r = Return () \<longrightarrow> c \<noteq> p) \<and>
         (r = Return () \<longrightarrow> \<not> f_cancelled (heap s p) \<longrightarrow>
            s' = upd p (\<lambda>sc. sc\<lparr>f_children := f_children sc @ [c]\<rparr>) s)"
proof (cases "c = p")
  case True
  with assms show ?thesis by (auto simp add: u_add_child_def linked_refl)
next
  case False
  show ?thesis
  proof (cases "f_cancelled (heap s p)")
    case True
    with assms False obtain r1 where "u_cancel n {p} s c p = Some (r1, s')"
      by (auto simp: u_add_child_def split: option.splits outcome.splits)
    then have oc: "only_cancels s s'" by (rule u_cancel_only_cancels)
    then show ?thesis using True False
      by (auto simp: only_cancels_linked) (auto simp: only_cancels_def same_config_def)
  next
    case nc: False
    with assms False have "s' = upd p (\<lambda>sc. sc\<lparr>f_children := f_children sc @ [c]\<rparr>) s"
      by (simp add: u_add_child_def)
    then show ?thesis using False nc by (simp add: linked_def upd_def)
  qed
qed

lemma enter_link_effect:
  assumes "enter_link n s c = Some (Return u, s')"
  shows "linked c s s' \<and>
     (case f_parent (heap s c) of
        None \<Rightarrow> s' = s
      | Some p \<Rightarrow> c \<noteq> p \<and>
          f_exc (heap s' c) = (case f_exc (heap s c) of None \<Rightarrow> f_exc (heap s p) | Some e \<Rightarrow> Some e) \<and>
          (if f_shield (heap s c) then f_timeout (heap s' c) = f_timeout (heap s c)
           else \<exists>r. fst (timeout s p) = Return r \<and>
                  f_timeout (heap s' c) = Some (case f_timeout (heap s c) of None \<Rightarrow> r | Some t \<Rightarrow> py_min t r)) \<and>
          (\<not> f_cancelled (heap s p) \<longrightarrow> f_children (heap s' p) = f_children (heap s p) @ [c]) \<and>
          (\<exists>r1 s1. u_add_child n s p c = Some (Return r1, s1) \<and> f_children (heap s' p) = f_children (heap s1 p)
              \<and> f_cancelled (heap s' c) = f_cancelled (heap s1 c)))"
proof (cases "f_parent (heap s c)")
  case None
  with assms show ?thesis by (simp add: enter_link_def linked_refl)
next
  case (Some p)
  with assms obtain r1 s1 where ac: "u_add_child n s p c = Some (r1, s1)"
    by (auto simp: enter_link_def split: option.splits)
  from assms Some ac obtain u1 where r1: "r1 = Return u1"
    by (cases r1) (auto simp: enter_link_def)
  note e1 = u_add_child_effect[OF ac]
  from e1 r1 have cp: "c \<noteq> p" by simp
  define s2 where "s2 = (if f_exc (heap s1 c) = None
                        then upd c (\<lambda>sc. sc\<lparr>f_exc := f_exc (heap s1 p)\<rparr>) s1 else s1)"
  have l2: "linked c s1 s2" unfolding s2_def by (simp add: linked_def upd_def)
  have ex2: "f_exc (heap s2 c) = (case f_exc (heap s c) of None \<Rightarrow> f_exc (heap s p) | Some e \<Rightarrow> Some e)"
    using e1 by (auto simp: s2_def upd_def split: option.splits)
  have h2: "f_timeout (heap s2 c) = f_timeout (heap s c)" "f_shield (heap s2 c) = f_shield (heap s c)"
     "f_children (heap s2 p) = f_children (heap s1 p)" "f_cancelled (heap s2 c) = f_cancelled (heap s1 c)"
     "ticks s2 = ticks s" "clock s2 = clock s"
    "f_cancelled (heap s2 p) = f_cancelled (heap s p)" "f_timeout (heap s2 p) = f_timeout (heap s p)"
    "f_entered (heap s2 p) = f_entered (heap s p)"  "f_deadline (heap s2 p) = f_deadline (heap s p)"
    using e1 cp by (auto simp: s2_def upd_def linked_def)
  have ch1: "\<not> f_cancelled (heap s p) \<longrightarrow> f_children (heap s1 p) = f_children (heap s p) @ [c]"
    using e1 r1 by (auto simp: upd_def)
  show ?thesis
  proof (cases "f_shield (heap s c)")
    case True
    with assms Some ac r1 h2 have "s' = s2" by (simp add: enter_link_def s2_def Let_def)
    then show ?thesis using Some cp ex2 h2 True l2 e1 ch1 ac r1
      by (auto intro: linked_trans)
  next
    case False
    obtain r3 s3 where t: "timeout s2 p = (r3, s3)" by (cases "timeout s2 p")
    from assms Some ac r1 False h2 t obtain pt where r3: "r3 = Return pt"
      by (cases r3) (auto simp: enter_link_def s2_def Let_def)
    have tc: "fst (timeout s p) = Return pt"
      using timeout_cong[of s2 p s] h2 t r3 by simp
    from assms Some ac r1 False h2 t r3 have s': 
            "s' = upd c (\<lambda>sc. sc\<lparr>f_timeout :=
                         (case f_timeout sc of
                            None \<Rightarrow> Some pt
                          | Some t \<Rightarrow> Some (py_min t pt))\<rparr>) s3" 
      by (simp add: enter_link_def s2_def Let_def)
    have h3: "heap s3 = heap s2" "current s3 = current s2" "clock s3 = clock s2"
      using timeout_heap[OF t] by simp_all
    have l3: "linked c s2 s'" using h3 s' by (simp add: linked_def upd_def)
    have tm: "f_timeout (heap s' c) = Some (case f_timeout (heap s c) of None \<Rightarrow> pt | Some t \<Rightarrow> py_min t pt)"
      using s' h3 h2 by (simp add: upd_def split: option.splits)
    have rest: "f_exc (heap s' c) = f_exc (heap s2 c)" "f_children (heap s' p) = f_children (heap s2 p)"
       "f_cancelled (heap s' c) = f_cancelled (heap s2 c)"
      using s' h3 cp by (simp_all add: upd_def)
    show ?thesis using Some cp ex2 h2 False l2 l3 e1 ch1 tc tm rest ac r1
      by (auto intro: linked_trans)
  qed
qed

lemma py_min_eq: "py_min a b = min a b"
  by (cases a; cases b) (auto simp: py_min_def min_def less_eq_pyfloat_def)

lemma enter_alt:
  "enter n s c =
     (if f_entered (heap s c) \<noteq> None then Some (Raise RuntimeError, s)
      else case enter_link n (enter_begin s c) c of
          None \<Rightarrow> None
        | Some (Raise e, s4) \<Rightarrow> Some (Raise e, s4)
        | Some (Return u, s4) \<Rightarrow> Some (enter_finish s4 c))"
  by (simp add: enter_def enter_begin_def time_def Let_def)

lemma enter_unfold:
  assumes "f_entered (heap s c) = None" "enter n s c = Some (res, s')"
  obtains e where "enter_link n (enter_begin s c) c = Some (Raise e, s')" "res = Raise e"
  | u s4 where "enter_link n (enter_begin s c) c = Some (Return u, s4)" "enter_finish s4 c = (res, s')"
  using assms unfolding enter_alt
  by (auto split: option.splits outcome.splits prod.splits)

lemma cancel_loop_raises_aux:
  assumes "\<And>held s self cs e s'. u_cancel n held s self cs = Some (Raise e, s') \<Longrightarrow> e = IndexError"
  shows "cancel_loop n held s self xs = Some (Raise e, s') \<Longrightarrow> e = IndexError"
proof (induction xs arbitrary: s)
  case Nil
  then show ?case by simp
next
  case (Cons x xs)
  obtain i child where x: "x = (i, child)" by (cases x)
  from Cons.prems[unfolded x] show ?case
    by (cases rule: cancel_loop_Cons_cases) (auto dest: assms Cons.IH)
qed

lemma u_cancel_raises:
  "u_cancel n held s self cs = Some (Raise e, s') \<Longrightarrow> e = IndexError"
proof (induction n arbitrary: held s self cs e s')
  case 0
  then show ?case by simp
next
  case (Suc n)
  from Suc.prems show ?case
    by (cases rule: u_cancel_Suc_cases)
      (auto split: outcome.splits dest: cancel_loop_raises_aux[OF Suc.IH, rotated])
qed

lemma timeout_raises: "timeout s x = (Raise e, s') \<Longrightarrow> e = TypeError"
  by (auto simp: timeout_def time_def Let_def split: if_splits option.splits)

lemma enter_link_raises:
  "enter_link n s c = Some (Raise e, s') \<Longrightarrow> e = ValueError \<or> e = IndexError \<or> e = TypeError"
  unfolding enter_link_def u_add_child_def
  by (auto simp: Let_def split: option.splits if_splits outcome.splits prod.splits
      dest: u_cancel_raises timeout_raises)

lemma set_deadline_effect:
  assumes "set_deadline s c = (r, s')"
  shows "(r = Raise TypeError \<or> r = Return ()) \<and> current s' = current s \<and> ticks s' = ticks s \<and>
     clock s' = clock s \<and> trace s' = trace s \<and>
     (\<forall>x. x \<noteq> c \<longrightarrow> heap s' x = heap s x) \<and>
     (\<exists>d. heap s' c = (heap s c)\<lparr>f_deadline := d\<rparr>) \<and>
     (r = Return () \<longrightarrow> (\<forall>e. f_entered (heap s c) = Some e \<longrightarrow>
         f_deadline (heap s' c) =
           (case f_timeout (heap s c) of None \<Rightarrow> f_deadline (heap s c) | Some t \<Rightarrow> Some (f_add e t))))"
  using assms
  by (auto simp: set_deadline_def upd_def split: option.splits
      intro: exI[of _ "f_deadline (heap s c)"])

lemma check_raises:
  assumes "check s x = (Raise e, s')"
  shows "e = TypeError \<or> (\<exists>v. fst (timeout s x) = Return v \<and> \<not> f_gt0 v \<and>
            e = (case f_exc (heap s x) of None \<Rightarrow> CancelledError | Some k \<Rightarrow> UserExc k))"
  using assms
  by (auto simp: check_def split: prod.splits outcome.splits if_splits option.splits
      dest: timeout_raises timeout_heap)

lemma enter_finish_effect:
  assumes "enter_finish s c = (res, s')"
  shows "clock s' = clock s \<and> trace s' = trace s \<and>
     (\<forall>x. x \<noteq> c \<longrightarrow> heap s' x = heap s x) \<and>
     (\<exists>d k. heap s' c = (heap s c)\<lparr>f_deadline := d, f_token := k\<rparr>) \<and>
     (\<forall>e. f_entered (heap s c) = Some e \<longrightarrow> f_deadline (heap s' c) =
           (case f_timeout (heap s c) of None \<Rightarrow> f_deadline (heap s c) | Some t \<Rightarrow> Some (f_add e t))) \<and>
     (case res of
        Return v \<Rightarrow> v = c \<and> current s' = Some c \<and> f_token (heap s' c) = Some (current s)
      | Raise e \<Rightarrow> current s' = current s \<and> f_token (heap s' c) = f_token (heap s c) \<and>
          (e \<noteq> TypeError \<longrightarrow> f_on_enter (heap s c)))"
proof -
  obtain r1 s1 where sd: "set_deadline s c = (r1, s1)" by (cases "set_deadline s c")
  note e1 = set_deadline_effect[OF sd]
  from e1 obtain d where d: "heap s1 c = (heap s c)\<lparr>f_deadline := d\<rparr>" by blast
  show ?thesis
  proof (cases r1)
    case (Raise e)
    with assms sd have "res = Raise e" "s' = s1" by (simp_all add: enter_finish_def)
    moreover have "f_timeout (heap s c) \<noteq> None \<and> f_entered (heap s c) = None"
      using sd Raise by (auto simp: set_deadline_def split: option.splits)
    ultimately show ?thesis using e1 d Raise
      by (auto intro!: exI[of _ d] exI[of _ "f_token (heap s c)"])
  next
    case (Return u)
    obtain r2 s2 where ck: "(if f_on_enter (heap s1 c) then check s1 c else (Return (), s1)) = (r2, s2)"
      by (cases "if f_on_enter (heap s1 c) then check s1 c else (Return (), s1)")
    have h2: "heap s2 = heap s1" "current s2 = current s1" "clock s2 = clock s1" "trace s2 = trace s1"
      using ck check_heap[of s1 c r2 s2] by (auto split: if_splits)
    have dl: "\<forall>e. f_entered (heap s c) = Some e \<longrightarrow> f_deadline (heap s1 c) =
           (case f_timeout (heap s c) of None \<Rightarrow> f_deadline (heap s c) | Some t \<Rightarrow> Some (f_add e t))"
      using e1 Return by auto
    show ?thesis
    proof (cases r2)
      case (Raise e)
      with assms sd Return ck have r: "res = Raise e" "s' = s2" by (simp_all add: enter_finish_def)
      have oe: "f_on_enter (heap s c)" using ck Raise d by (auto split: if_splits)
      show ?thesis using r h2 e1 d dl oe
        by (auto intro!: exI[of _ d] exI[of _ "f_token (heap s c)"])
    next
      case r2: (Return u2)
      with assms sd Return ck have r: "res = Return c"
        "s' = (upd c (\<lambda>sc. sc\<lparr>f_token := Some (current s2)\<rparr>) s2)\<lparr>current := Some c\<rparr>"
        by (simp_all add: enter_finish_def)
      show ?thesis using r h2 e1 d dl
        by (auto simp: upd_def intro!: exI[of _ d] exI[of _ "Some (current s)"])
    qed
  qed
qed

lemma enter_marks:
  assumes "enter n s c = Some (r, s')"
  shows "\<exists>t. f_entered (heap s' c) = Some t"
proof (cases "f_entered (heap s c)")
  case (Some t)
  with assms show ?thesis by (simp add: enter_def)
next
  case None
  have b: "f_entered (heap (enter_begin s c) c) = Some (fst (time s))"
    by (simp add: enter_begin_def)
  from None assms show ?thesis
  proof (cases rule: enter_unfold)
    case (1 e)
    from enter_link_keeps[OF 1(1)] b show ?thesis by (simp add: keeps_def)
  next
    case (2 u s4)
    from enter_link_keeps[OF 2(1)] enter_finish_keeps[OF 2(2)] b show ?thesis
      by (simp add: keeps_def)
  qed
qed

subsection \<open>Single entry\<close>

text \<open>
  C9. A scope that has been entered (whatever came of that entry, and whatever calls
  were made since, an exit among them) cannot be entered again: \<open>__enter__\<close> raises
  the "already entered" \<open>RuntimeError\<close> and changes nothing.
\<close>

theorem enter_twice_fails:
  assumes "enter n s self = Some (r, s1)" and "run m s1 cs = Some s2"
  shows "enter k s2 self = Some (Raise RuntimeError, s2)"
proof -
  from enter_marks[OF assms(1)] obtain t where "f_entered (heap s1 self) = Some t" ..
  with run_keeps[OF assms(2)] have "f_entered (heap s2 self) = Some t"
    by (simp add: keeps_def)
  then show ?thesis by (simp add: enter_def)
qed

theorem enter_twice_fails_witness:
  "\<exists>r s1 s2. enter 1 (start (\<lambda>_. plain) (\<lambda>_. 0)) 0 = Some (r, s1) \<and>
     run 1 s1 [Exit 0 False] = Some s2 \<and>
     enter 1 s2 0 = Some (Raise RuntimeError, s2)"
proof -
  obtain r s1 where a: "enter 1 (start (\<lambda>_. plain) (\<lambda>_. 0)) 0 = Some (r, s1)"
    by (simp add: enter_alt enter_begin_def start_def plain_def init_def time_def
        enter_link_def enter_finish_def set_deadline_def)
  obtain s2 where b: "run 1 s1 [Exit 0 False] = Some s2"
    by simp
  from enter_twice_fails[OF a b] a b show ?thesis
    by blast
qed

lemma min_PInf [simp]: "min PInf r = r" "min r PInf = r"
  by (cases r; simp add: min_def less_eq_pyfloat_def)+

lemma eff_simps [simp]: "eff None = PInf" "eff (Some t) = t"
  by (simp_all add: eff_def)

lemma enter_begin_sel [simp]:
  "f_entered (heap (enter_begin s c) c) = Some (fst (time s))"
  "f_parent (heap (enter_begin s c) c) = current s"
  "f_timeout (heap (enter_begin s c) x) = f_timeout (heap s x)"
  "f_shield (heap (enter_begin s c) x) = f_shield (heap s x)"
  "f_exc (heap (enter_begin s c) x) = f_exc (heap s x)"
  "f_cancelled (heap (enter_begin s c) x) = f_cancelled (heap s x)"
  "f_children (heap (enter_begin s c) x) = f_children (heap s x)"
  "f_deadline (heap (enter_begin s c) x) = f_deadline (heap s x)"
  "f_token (heap (enter_begin s c) x) = f_token (heap s x)"
  "f_on_enter (heap (enter_begin s c) x) = f_on_enter (heap s x)"
  "f_on_exit (heap (enter_begin s c) x) = f_on_exit (heap s x)"
  "x \<noteq> c \<Longrightarrow> heap (enter_begin s c) x = heap s x"
  "current (enter_begin s c) = current s"
  "clock (enter_begin s c) = clock s"
  "ticks (enter_begin s c) = Suc (ticks s)"
  "trace (enter_begin s c) = trace s"
  by (simp_all add: enter_begin_def time_def upd_def)

lemma case_py_min:
  "(case t of None \<Rightarrow> r | Some d \<Rightarrow> py_min d r) = min (eff t) r"
  by (cases t) (simp_all add: py_min_eq)

lemma enter_link_parts:
  assumes "enter_link n s c = Some (Return u, s')" and "f_parent (heap s c) = Some p"
  shows "c \<noteq> p"
    and "f_exc (heap s' c) = (case f_exc (heap s c) of None \<Rightarrow> f_exc (heap s p) | Some e \<Rightarrow> Some e)"
    and "f_shield (heap s c) \<Longrightarrow> f_timeout (heap s' c) = f_timeout (heap s c)"
    and "\<not> f_shield (heap s c) \<Longrightarrow> \<exists>r. fst (timeout s p) = Return r \<and>
            f_timeout (heap s' c) = Some (min (eff (f_timeout (heap s c))) r)"
    and "\<not> f_cancelled (heap s p) \<Longrightarrow> f_children (heap s' p) = f_children (heap s p) @ [c]"
    and "\<exists>r1 s1. u_add_child n s p c = Some (Return r1, s1) \<and>
            f_children (heap s' p) = f_children (heap s1 p) \<and>
            f_cancelled (heap s' c) = f_cancelled (heap s1 c)"
  using enter_link_effect[OF assms(1)] assms(2)
  by (simp_all add: case_py_min)

lemma enter_values:
  assumes ne: "f_entered (heap s c) = None"
    and lk: "enter_link n (enter_begin s c) c = Some (Return u, s4)"
    and fi: "enter_finish s4 c = (res, s')"
  shows "f_entered (heap s' c) = Some (fst (time s))"
    and "f_parent (heap s' c) = current s"
    and "f_timeout (heap s' c) = Some t \<Longrightarrow> f_deadline (heap s' c) = Some (f_add (fst (time s)) t)"
    and "current s = None \<Longrightarrow> f_timeout (heap s' c) = f_timeout (heap s c) \<and> f_exc (heap s' c) = f_exc (heap s c)"
    and "current s = Some p \<Longrightarrow> c \<noteq> p \<and>
          f_exc (heap s' c) = (case f_exc (heap s c) of None \<Rightarrow> f_exc (heap s p) | Some e \<Rightarrow> Some e) \<and>
          (f_shield (heap s c) \<longrightarrow> f_timeout (heap s' c) = f_timeout (heap s c)) \<and>
          (\<not> f_shield (heap s c) \<longrightarrow> (\<exists>r. fst (timeout (snd (time s)) p) = Return r \<and>
              f_timeout (heap s' c) = Some (min (eff (f_timeout (heap s c))) r))) \<and>
          (\<not> f_cancelled (heap s p) \<longrightarrow> f_children (heap s' p) = f_children (heap s p) @ [c])"
proof -
  note le = enter_link_effect[OF lk]
  note fe = enter_finish_effect[OF fi]
  from le have l: "linked c (enter_begin s c) s4" by simp
  from fe obtain d k where hk: "heap s' c = (heap s4 c)\<lparr>f_deadline := d, f_token := k\<rparr>" by blast
  have e4: "f_entered (heap s4 c) = Some (fst (time s))" "f_parent (heap s4 c) = current s"
    using l by (simp_all add: linked_def)
  show "f_entered (heap s' c) = Some (fst (time s))" using hk e4 by simp
  show "f_parent (heap s' c) = current s" using hk e4 by simp
  have t': "f_timeout (heap s' c) = f_timeout (heap s4 c)" "f_exc (heap s' c) = f_exc (heap s4 c)"
    using hk by simp_all
  have dl: "f_deadline (heap s' c) = (case f_timeout (heap s4 c) of None \<Rightarrow> f_deadline (heap s4 c)
            | Some t \<Rightarrow> Some (f_add (fst (time s)) t))"
    using fe e4 by simp
  show "f_deadline (heap s' c) = Some (f_add (fst (time s)) t)" if "f_timeout (heap s' c) = Some t"
  proof -
    from that t' have "f_timeout (heap s4 c) = Some t" by simp
    with dl show ?thesis by simp
  qed
  show "f_timeout (heap s' c) = f_timeout (heap s c) \<and> f_exc (heap s' c) = f_exc (heap s c)"
    if "current s = None"
    using le that t' by simp
  show "c \<noteq> p \<and>
          f_exc (heap s' c) = (case f_exc (heap s c) of None \<Rightarrow> f_exc (heap s p) | Some e \<Rightarrow> Some e) \<and>
          (f_shield (heap s c) \<longrightarrow> f_timeout (heap s' c) = f_timeout (heap s c)) \<and>
          (\<not> f_shield (heap s c) \<longrightarrow> (\<exists>r. fst (timeout (snd (time s)) p) = Return r \<and>
              f_timeout (heap s' c) = Some (min (eff (f_timeout (heap s c))) r))) \<and>
          (\<not> f_cancelled (heap s p) \<longrightarrow> f_children (heap s' p) = f_children (heap s p) @ [c])"
    if cur: "current s = Some p"
  proof -
    have par: "f_parent (heap (enter_begin s c) c) = Some p" using cur by simp
    note pt = enter_link_parts[OF lk par]
    have cp: "c \<noteq> p" by (rule pt(1))
    have tc: "fst (timeout (enter_begin s c) p) = fst (timeout (snd (time s)) p)"
      using cp by (intro timeout_cong) (simp_all add: time_def)
    have ch: "f_children (heap s' p) = f_children (heap s4 p)"
      using fe cp by simp
    have hp: "heap (enter_begin s c) p = heap s p" using cp by simp
    have ex: "f_exc (heap s' c) =
        (case f_exc (heap s c) of None \<Rightarrow> f_exc (heap s p) | Some e \<Rightarrow> Some e)"
      using pt(2) t' hp by (simp split: option.splits)
    have sh: "f_shield (heap s c) \<longrightarrow> f_timeout (heap s' c) = f_timeout (heap s c)"
      using pt(3) t' by simp
    have ns: "\<not> f_shield (heap s c) \<longrightarrow> (\<exists>r. fst (timeout (snd (time s)) p) = Return r \<and>
              f_timeout (heap s' c) = Some (min (eff (f_timeout (heap s c))) r))"
      using pt(4) tc t' by simp
    have cl: "\<not> f_cancelled (heap s p) \<longrightarrow> f_children (heap s' p) = f_children (heap s p) @ [c]"
      using pt(5) ch by simp
    from cp ex sh ns cl show ?thesis by blast
  qed
qed

lemma enter_link_linked:
  assumes "enter_link n s c = Some (r, s')"
  shows "linked c s s'"
proof (cases "f_parent (heap s c)")
  case None
  with assms show ?thesis by (simp add: enter_link_def linked_refl)
next
  case (Some p)
  with assms obtain r1 s1 where ac: "u_add_child n s p c = Some (r1, s1)"
    by (auto simp: enter_link_def split: option.splits)
  from u_add_child_effect[OF ac] have l1: "linked c s s1" by simp
  show ?thesis
  proof (cases r1)
    case (Raise e)
    with assms Some ac show ?thesis using l1 by (simp add: enter_link_def)
  next
    case (Return u)
    define s2 where "s2 = (if f_exc (heap s1 c) = None
                        then upd c (\<lambda>sc. sc\<lparr>f_exc := f_exc (heap s1 p)\<rparr>) s1 else s1)"
    have l2: "linked c s1 s2" unfolding s2_def by (simp add: linked_def upd_def)
    show ?thesis
    proof (cases "f_shield (heap s2 c)")
      case True
      with assms Some ac Return have "s' = s2" by (simp add: enter_link_def s2_def Let_def)
      then show ?thesis using l1 l2 linked_trans by blast
    next
      case False
      obtain r3 s3 where t: "timeout s2 p = (r3, s3)" by (cases "timeout s2 p")
      have l3: "linked c s2 s3" using timeout_heap[OF t] by (simp add: linked_def)
      show ?thesis
      proof (cases r3)
        case (Raise e)
        with assms Some ac Return False t have "s' = s3"
          by (simp add: enter_link_def s2_def Let_def)
        then show ?thesis using l1 l2 l3 linked_trans by blast
      next
        case (Return pt)
        with assms Some ac \<open>r1 = Return u\<close> False t have
          "s' = upd c (\<lambda>sc. sc\<lparr>f_timeout :=
                         (case f_timeout sc of
                            None \<Rightarrow> Some pt
                          | Some t \<Rightarrow> Some (py_min t pt))\<rparr>) s3"
          by (simp add: enter_link_def s2_def Let_def)
        then have "linked c s3 s'" by (simp add: linked_def upd_def)
        then show ?thesis using l1 l2 l3 linked_trans by blast
      qed
    qed
  qed
qed

subsection \<open>Evaluation of concrete states\<close>

lemmas ev = enter_alt enter_begin_def enter_link_def u_add_child_def timeout_def time_def
  enter_finish_def set_deadline_def check_def upd_def start_def init_def plain_def cancel_def
  exit_def cancelled_def Let_def py_min_def eff_def

lemmas ev2 = ev numeral_2_eq_2 clock0_def clock01_def two_timeouts_def S1_before_def
  eager_child_def dead_parent_def hasty_child_def live_parent_def cancelled_root_def

subsection \<open>The deadline fixed at entry\<close>

text \<open>
  C3. A scope entered under a parent \<open>p\<close>: if it is shielded its effective timeout is
  its own configured one (an unset timeout counting as \<open>+inf\<close>); if it is not, it is
  the minimum of its own and of the remaining timeout that \<open>p.timeout()\<close> returns
  during the entry (that call reads the clock right after the entry time stamp was
  taken); and a finite effective timeout \<open>d\<close> gives the deadline entry time plus \<open>d\<close>.
\<close>

theorem deadline_merge:
  assumes "f_entered (heap s self) = None" and "current s = Some p"
    and "enter n s self = Some (Return v, s')"
  shows "(f_shield (heap s self) \<longrightarrow>
            eff (f_timeout (heap s' self)) = eff (f_timeout (heap s self))) \<and>
         (\<not> f_shield (heap s self) \<longrightarrow>
            (\<exists>r. fst (timeout (snd (time s)) p) = Return r \<and>
                 eff (f_timeout (heap s' self)) = min (eff (f_timeout (heap s self))) r)) \<and>
         (\<forall>d. eff (f_timeout (heap s' self)) = Fin d \<longrightarrow>
            f_entered (heap s' self) = Some (fst (time s)) \<and>
            f_deadline (heap s' self) = Some (Fin (fst (time s) + d)))"
  using assms(1,3)
proof (cases rule: enter_unfold)
  case (1 e)
  then show ?thesis by simp
next
  case (2 u s4)
  note v = enter_values[OF assms(1) 2]
  have a: "f_shield (heap s self) \<longrightarrow>
            eff (f_timeout (heap s' self)) = eff (f_timeout (heap s self))"
    using v(5)[OF assms(2)] by simp
  have b: "\<not> f_shield (heap s self) \<longrightarrow>
            (\<exists>r. fst (timeout (snd (time s)) p) = Return r \<and>
                 eff (f_timeout (heap s' self)) = min (eff (f_timeout (heap s self))) r)"
  proof
    assume "\<not> f_shield (heap s self)"
    with v(5)[OF assms(2)] obtain r where "fst (timeout (snd (time s)) p) = Return r"
      "f_timeout (heap s' self) = Some (min (eff (f_timeout (heap s self))) r)" by blast
    then show "\<exists>r. fst (timeout (snd (time s)) p) = Return r \<and>
                 eff (f_timeout (heap s' self)) = min (eff (f_timeout (heap s self))) r"
      by simp
  qed
  have c: "\<forall>d. eff (f_timeout (heap s' self)) = Fin d \<longrightarrow>
            f_entered (heap s' self) = Some (fst (time s)) \<and>
            f_deadline (heap s' self) = Some (Fin (fst (time s) + d))"
  proof (intro allI impI)
    fix d assume "eff (f_timeout (heap s' self)) = Fin d"
    then have "f_timeout (heap s' self) = Some (Fin d)"
      by (cases "f_timeout (heap s' self)") simp_all
    from v(3)[OF this] v(1) show "f_entered (heap s' self) = Some (fst (time s)) \<and>
            f_deadline (heap s' self) = Some (Fin (fst (time s) + d))" by simp
  qed
  from a b c show ?thesis by blast
qed

theorem deadline_merge_witness:
  "f_entered (heap S1_before 1) = None \<and> current S1_before = Some 0 \<and>
   enter 1 S1_before 1 = Some (Return 1, snd (the (enter 1 S1_before 1))) \<and>
   \<not> f_shield (heap S1_before 1) \<and>
   eff (f_timeout (heap (snd (the (enter 1 S1_before 1))) 1)) = Fin 4 \<and>
   f_deadline (heap (snd (the (enter 1 S1_before 1))) 1) = Some (Fin 5)"
proof -
  let ?s' = "snd (the (enter 1 S1_before 1))"
  have h1: "f_entered (heap S1_before 1) = None" and h2: "current S1_before = Some 0"
    and h3: "enter 1 S1_before 1 = Some (Return 1, ?s')"
    and h4: "\<not> f_shield (heap S1_before 1)"
    and h5: "fst (timeout (snd (time S1_before)) 0) = Return (Fin 4)"
    and h6: "eff (f_timeout (heap S1_before 1)) = Fin 10" and h7: "fst (time S1_before) = 1"
    by (simp_all add: ev2)
  note m = deadline_merge[OF h1 h2 h3]
  from m h4 h5 h6 have e: "eff (f_timeout (heap ?s' 1)) = Fin 4"
    by (auto simp: min_def less_eq_pyfloat_def)
  with m h7 have "f_deadline (heap ?s' 1) = Some (Fin 5)" by simp
  with e h1 h2 h3 h4 show ?thesis by simp
qed

subsection \<open>The check on entry and the context variable\<close>

text \<open>
  C6, as amended. \<open>__enter__\<close> runs the check of \<open>on_enter\<close> before it sets the context
  variable: whenever \<open>__enter__\<close> raises, the check among the causes, the current scope
  is still the previous one and no token has been stored; only when \<open>__enter__\<close>
  returns is the scope the current one, with the previous one captured in its token.
\<close>

theorem check_before_ambient:
  assumes "enter n s self = Some (r, s')"
  shows "case r of
           Raise e \<Rightarrow> current s' = current s \<and> f_token (heap s' self) = f_token (heap s self)
         | Return v \<Rightarrow> v = self \<and> current s' = Some self \<and>
                        f_token (heap s' self) = Some (current s)"
proof (cases "f_entered (heap s self)")
  case (Some t)
  with assms show ?thesis by (auto simp add: enter_def)
next
  case None
  from None assms show ?thesis
  proof (cases rule: enter_unfold)
    case (1 e)
    from enter_link_linked[OF 1(1)] 1(2) show ?thesis by (simp add: linked_def)
  next
    case (2 u s4)
    from enter_link_linked[OF 2(1)] enter_finish_effect[OF 2(2)] show ?thesis
      by (cases r) (simp_all add: linked_def)
  qed
qed

theorem check_before_ambient_witness:
  "enter 2 dead_parent 1 = Some (Raise CancelledError, snd (the (enter 2 dead_parent 1))) \<and>
   current dead_parent = Some 0 \<and>
   current (snd (the (enter 2 dead_parent 1))) = Some 0 \<and>
   f_token (heap (snd (the (enter 2 dead_parent 1))) 1) = None"
proof -
  have a: "enter 2 dead_parent 1 = Some (Raise CancelledError, snd (the (enter 2 dead_parent 1)))"
    by (simp add: ev2)
  have b: "current dead_parent = Some 0" "f_token (heap dead_parent 1) = None"
    by (simp_all add: ev2)
  from check_before_ambient[OF a] b show ?thesis using a by simp
qed

text \<open>
  C6 as stated fails: a scope with \<open>on_enter\<close> entered under a cancelled parent raises
  from its check, and the current scope is not the scope being entered.
\<close>

theorem ambient_set_before_check_counterexample:
  "f_on_enter (heap dead_parent 1) \<and>
   fst (the (enter 2 dead_parent 1)) = Raise CancelledError \<and>
   current (snd (the (enter 2 dead_parent 1))) \<noteq> Some 1"
  by (simp add: ev2)

subsection \<open>A failed check on entry is not rolled back\<close>

text \<open>
  C10, as amended. When \<open>__enter__\<close> raises the cancellation exception (which only the
  check of \<open>on_enter\<close> raises), the scope stays marked as entered, so that any later
  \<open>__enter__\<close> raises the "already entered" error; it stays appended to the children of
  its parent when there was a parent that was not already cancelled; and its exception,
  timeout and deadline are the ones the entry computed.
\<close>

theorem failed_check_on_enter_not_rolled_back:
  assumes "f_entered (heap s self) = None"
    and "enter n s self = Some (Raise e, s')"
    and "e = CancelledError \<or> e = UserExc k"
  shows "f_on_enter (heap s self) \<and>
     f_entered (heap s' self) = Some (fst (time s)) \<and>
     (\<forall>m. enter m s' self = Some (Raise RuntimeError, s')) \<and>
     f_parent (heap s' self) = current s \<and>
     (\<forall>p. current s = Some p \<and> \<not> f_cancelled (heap s p) \<longrightarrow>
          f_children (heap s' p) = f_children (heap s p) @ [self]) \<and>
     (\<forall>p. current s = Some p \<longrightarrow>
          f_exc (heap s' self) =
            (case f_exc (heap s self) of None \<Rightarrow> f_exc (heap s p) | Some x \<Rightarrow> Some x)) \<and>
     (\<forall>p. current s = Some p \<and> f_shield (heap s self) \<longrightarrow>
          f_timeout (heap s' self) = f_timeout (heap s self)) \<and>
     (\<forall>p. current s = Some p \<and> \<not> f_shield (heap s self) \<longrightarrow>
          (\<exists>r. fst (timeout (snd (time s)) p) = Return r \<and>
               f_timeout (heap s' self) = Some (min (eff (f_timeout (heap s self))) r))) \<and>
     (current s = None \<longrightarrow>
          f_timeout (heap s' self) = f_timeout (heap s self) \<and>
          f_exc (heap s' self) = f_exc (heap s self)) \<and>
     (\<forall>t. f_timeout (heap s' self) = Some t \<longrightarrow>
          f_deadline (heap s' self) = Some (f_add (fst (time s)) t))"
  using assms(1,2)
proof (cases rule: enter_unfold)
  case (1 e')
  from enter_link_raises[OF 1(1)] 1(2) assms(3) show ?thesis by auto
next
  case (2 u s4)
  note v = enter_values[OF assms(1) 2]
  from enter_finish_effect[OF 2(2)] assms(3) have "f_on_enter (heap s4 self)" by auto
  with enter_link_linked[OF 2(1)] have a: "f_on_enter (heap s self)"
    by (simp add: linked_def)
  have b: "\<forall>m. enter m s' self = Some (Raise RuntimeError, s')"
    using v(1) by (simp add: enter_def)
  have c: "\<forall>p. current s = Some p \<and> \<not> f_cancelled (heap s p) \<longrightarrow>
          f_children (heap s' p) = f_children (heap s p) @ [self]"
    using v(5) by blast
  have d: "\<forall>p. current s = Some p \<longrightarrow>
          f_exc (heap s' self) =
            (case f_exc (heap s self) of None \<Rightarrow> f_exc (heap s p) | Some x \<Rightarrow> Some x)"
    using v(5) by blast
  have f: "\<forall>p. current s = Some p \<and> f_shield (heap s self) \<longrightarrow>
          f_timeout (heap s' self) = f_timeout (heap s self)"
    using v(5) by blast
  have g: "\<forall>p. current s = Some p \<and> \<not> f_shield (heap s self) \<longrightarrow>
          (\<exists>r. fst (timeout (snd (time s)) p) = Return r \<and>
               f_timeout (heap s' self) = Some (min (eff (f_timeout (heap s self))) r))"
    using v(5) by blast
  have h: "\<forall>t. f_timeout (heap s' self) = Some t \<longrightarrow>
          f_deadline (heap s' self) = Some (f_add (fst (time s)) t)"
    using v(3) by blast
  from a b c d f g h v(1) v(2) v(4) show ?thesis by blast
qed

theorem failed_check_on_enter_not_rolled_back_witness:
  "f_entered (heap live_parent 1) = None \<and>
   enter 1 live_parent 1 = Some (Raise CancelledError, snd (the (enter 1 live_parent 1))) \<and>
   current live_parent = Some 0 \<and> \<not> f_cancelled (heap live_parent 0) \<and>
   f_children (heap (snd (the (enter 1 live_parent 1))) 0) = [1] \<and>
   enter 1 (snd (the (enter 1 live_parent 1))) 1 =
     Some (Raise RuntimeError, snd (the (enter 1 live_parent 1)))"
proof -
  let ?s' = "snd (the (enter 1 live_parent 1))"
  have h1: "f_entered (heap live_parent 1) = None"
    and h2: "enter 1 live_parent 1 = Some (Raise CancelledError, ?s')"
    and h3: "current live_parent = Some 0" "\<not> f_cancelled (heap live_parent 0)"
      "f_children (heap live_parent 0) = []"
    by (simp_all add: ev2)
  from failed_check_on_enter_not_rolled_back[OF h1 h2, of 0] h1 h2 h3
  show ?thesis by simp
qed

text \<open>
  C10 as stated fails where the parent was already cancelled: the child was never
  appended to the parent's children, so it is not there after the failed check.
\<close>

theorem registered_after_failed_check_counterexample:
  "f_entered (heap dead_parent 1) = None \<and> current dead_parent = Some 0 \<and>
   fst (the (enter 2 dead_parent 1)) = Raise CancelledError \<and>
   1 \<notin> set (f_children (heap (snd (the (enter 2 dead_parent 1))) 0))"
  by (simp add: ev2)

subsection \<open>The cancelled flag is monotonic\<close>

text \<open>
  C8. A cancelled flag that is set stays set: through any sequence of public calls
  (entering, exiting, cancelling, querying, checking; returning or raising), and through
  the internal routines \<open>_cancel\<close> and \<open>_add_child\<close>.
\<close>

theorem cancelled_monotonic:
  "(run n s cs = Some s' \<longrightarrow> cancelled s x \<longrightarrow> cancelled s' x) \<and>
   (u_cancel n held s self origin = Some (r, t) \<longrightarrow> cancelled s x \<longrightarrow> cancelled t x) \<and>
   (u_add_child n s self child = Some (r', t') \<longrightarrow> cancelled s x \<longrightarrow> cancelled t' x)"
  using run_keeps[of n s cs s'] u_cancel_only_cancels[of n held s self origin r t]
    u_add_child_keeps[of n s self child r' t']
  by (auto simp: cancelled_def keeps_def only_cancels_def)

theorem cancelled_monotonic_witness:
  "cancelled cancelled_root 0 \<and>
   run 1 cancelled_root [Enter 0, Check 0, Exit 0 True, Cancel 0, RemainingTimeout 0]
     = Some (the (run 1 cancelled_root [Enter 0, Check 0, Exit 0 True, Cancel 0, RemainingTimeout 0])) \<and>
   cancelled (the (run 1 cancelled_root [Enter 0, Check 0, Exit 0 True, Cancel 0, RemainingTimeout 0])) 0 \<and>
   u_cancel 1 {} cancelled_root 0 0 = Some (Return True, snd (the (u_cancel 1 {} cancelled_root 0 0))) \<and>
   cancelled (snd (the (u_cancel 1 {} cancelled_root 0 0))) 0 \<and>
   u_add_child 1 cancelled_root 0 1 = Some (Return (), snd (the (u_add_child 1 cancelled_root 0 1))) \<and>
   cancelled (snd (the (u_add_child 1 cancelled_root 0 1))) 0"
proof -
  let ?cs = "[Enter 0, Check 0, Exit 0 True, Cancel 0, RemainingTimeout 0]"
  have a: "cancelled cancelled_root 0"
    and b: "run 1 cancelled_root ?cs = Some (the (run 1 cancelled_root ?cs))"
    and c: "u_cancel 1 {} cancelled_root 0 0 = Some (Return True, snd (the (u_cancel 1 {} cancelled_root 0 0)))"
    and d: "u_add_child 1 cancelled_root 0 1 = Some (Return (), snd (the (u_add_child 1 cancelled_root 0 1)))"
    by (simp_all add: ev2)
  from cancelled_monotonic[where n = 1 and s = cancelled_root and cs = ?cs
      and s' = "the (run 1 cancelled_root ?cs)" and x = 0 and held = "{}" and self = 0
      and origin = 0 and r = "Return True" and t = "snd (the (u_cancel 1 {} cancelled_root 0 0))"
      and child = 1 and r' = "Return ()"
      and t' = "snd (the (u_add_child 1 cancelled_root 0 1))"] a b c d
  show ?thesis by simp
qed

subsection \<open>The sweep returns normally and leaves cancelled scopes alone\<close>

lemma rev_enumerate_snoc:
  "rev (enumerate 0 (ys @ [c])) = (length ys, c) # rev (enumerate 0 ys)"
  by (simp add: enumerate_append_eq)

lemma del_at_last [simp]: "del_at (length ys) (ys @ [c]) = ys"
  by (simp add: del_at_def)

lemma cancel_loop_tidy_aux:
  assumes IH: "\<And>held s self cs r s'. u_cancel n held s self cs = Some (r, s') \<Longrightarrow>
            (\<exists>b. r = Return b) \<and> tidy s s'"
  shows "cancel_loop n held s self (rev (enumerate 0 ys)) = Some (r, s') \<Longrightarrow>
         f_children (heap s self) = ys \<Longrightarrow> f_cancelled (heap s self) \<Longrightarrow>
         r = Return () \<and> heap s' self = (heap s self)\<lparr>f_children := []\<rparr> \<and>
         (\<forall>x. x \<noteq> self \<longrightarrow> f_cancelled (heap s x) \<longrightarrow> heap s' x = heap s x) \<and>
         (\<forall>x. x \<noteq> self \<longrightarrow> f_cancelled (heap s' x) \<and> \<not> f_cancelled (heap s x) \<longrightarrow>
              f_children (heap s' x) = [])"
proof (induction ys arbitrary: s rule: rev_induct)
  case Nil
  then show ?case by simp
next
  case (snoc c ys)
  from snoc.prems(1) have l: "cancel_loop n held s self ((length ys, c) # rev (enumerate 0 ys)) = Some (r, s')"
    by (simp add: rev_enumerate_snoc)
  from l show ?case
  proof (cases rule: cancel_loop_Cons_cases)
    case (raised e)
    with IH[OF raised(1)] show ?thesis by simp
  next
    case (index b)
    from IH[OF index(1)] have "tidy s s'" by simp
    with snoc.prems(3) have "heap s' self = heap s self" by (simp add: tidy_def)
    with index(2) snoc.prems(2) show ?thesis by simp
  next
    case (continue b s1)
    from IH[OF continue(1)] have t: "tidy s s1" by simp
    with snoc.prems(3) have hs: "heap s1 self = heap s self" by (simp add: tidy_def)
    let ?s2 = "upd self (\<lambda>sc. sc\<lparr>f_children := del_at (length ys) (f_children sc)\<rparr>) s1"
    have c2: "f_children (heap ?s2 self) = ys" "f_cancelled (heap ?s2 self)"
      using hs snoc.prems(2,3) by simp_all
    note ih = snoc.IH[OF continue(3) c2]
    have a: "heap s' self = (heap s self)\<lparr>f_children := []\<rparr>"
      using ih hs by simp
    have b: "heap s' x = heap s x" if "x \<noteq> self" "f_cancelled (heap s x)" for x
    proof -
      from t that have "heap s1 x = heap s x" by (simp add: tidy_def)
      with that ih show ?thesis by simp
    qed
    have d: "f_children (heap s' x) = []"
      if "x \<noteq> self" "f_cancelled (heap s' x)" "\<not> f_cancelled (heap s x)" for x
    proof (cases "f_cancelled (heap s1 x)")
      case True
      with t that have "f_children (heap s1 x) = []" by (simp add: tidy_def)
      moreover from True that ih have "heap s' x = heap s1 x" by simp
      ultimately show ?thesis by simp
    next
      case False
      with that ih show ?thesis by simp
    qed
    from ih a b d show ?thesis by blast
  qed
qed

lemma u_cancel_tidy:
  "u_cancel n held s self cs = Some (r, s') \<Longrightarrow> (\<exists>b. r = Return b) \<and> tidy s s'"
proof (induction n arbitrary: held s self cs r s')
  case 0
  then show ?case by simp
next
  case (Suc n)
  from Suc.prems show ?case
  proof (cases rule: u_cancel_Suc_cases)
    case already
    then show ?thesis by (auto simp add: tidy_def)
  next
    case refused
    then show ?thesis by (auto simp add: tidy_def)
  next
    case (swept r2)
    let ?s1 = "upd self (\<lambda>sc. sc\<lparr>f_cancelled := True\<rparr>) (s\<lparr>trace := trace s @ [self]\<rparr>)"
    have "cancel_loop n (insert self held) ?s1 self (rev (enumerate 0 (f_children (heap ?s1 self))))
           = Some (r2, s')" using swept(4) by simp
    from cancel_loop_tidy_aux[OF Suc.IH this] 
    have l: "r2 = Return ()" "heap s' self = (heap ?s1 self)\<lparr>f_children := []\<rparr>"
      "\<And>x. x \<noteq> self \<Longrightarrow> f_cancelled (heap ?s1 x) \<Longrightarrow> heap s' x = heap ?s1 x"
      "\<And>x. x \<noteq> self \<Longrightarrow> f_cancelled (heap s' x) \<Longrightarrow> \<not> f_cancelled (heap ?s1 x) \<Longrightarrow>
              f_children (heap s' x) = []"
      by simp_all
    have "tidy s s'"
      unfolding tidy_def
    proof (intro conjI allI impI)
      fix x assume "f_cancelled (heap s x)"
      with swept(2) have "x \<noteq> self" by auto
      with l(3)[of x] \<open>f_cancelled (heap s x)\<close> show "heap s' x = heap s x" by simp
    next
      fix x assume "f_cancelled (heap s' x) \<and> \<not> f_cancelled (heap s x)"
      then show "f_children (heap s' x) = []"
        using l(2) l(4)[of x] by (cases "x = self") simp_all
    qed
    with l(1) swept(5) show ?thesis by auto
  qed
qed

subsection \<open>Depth, descendants and termination of the sweep\<close>

lemma subseq_set: "subseq xs ys \<Longrightarrow> set xs \<subseteq> set ys"
  by (auto dest: list_emb_set)

lemma subseq_distinct: "subseq xs ys \<Longrightarrow> distinct ys \<Longrightarrow> distinct xs"
  by (metis in_set_subseqs subseqs_distinctD)

lemma shrinks_empty: "shrinks h h' \<Longrightarrow> f_children (h x) = [] \<Longrightarrow> f_children (h' x) = []"
  by (metis shrinks_def set_empty subset_empty)

lemma shrinks_refl: "shrinks h h"
  by (simp add: shrinks_def)

lemma shrinks_trans: "shrinks h h1 \<Longrightarrow> shrinks h1 h2 \<Longrightarrow> shrinks h h2"
  by (auto simp: shrinks_def)

lemma only_cancels_shrinks: "only_cancels s s' \<Longrightarrow> shrinks (heap s) (heap s')"
  by (simp add: only_cancels_def shrinks_def subseq_set)

lemma depth_le_mono: "depth_le d h x \<Longrightarrow> depth_le (Suc d) h x"
  by (induction d arbitrary: x) auto

lemma depth_le_shrinks: "shrinks h h' \<Longrightarrow> depth_le d h x \<Longrightarrow> depth_le d h' x"
proof (induction d arbitrary: x)
  case 0
  then show ?case by (simp add: shrinks_empty)
next
  case (Suc d)
  then show ?case by (auto simp: shrinks_def)
qed

lemma desc_shrinks: "desc h' s x \<Longrightarrow> shrinks h h' \<Longrightarrow> desc h s x"
proof (induction rule: desc.induct)
  case (child c)
  then show ?case by (auto simp: shrinks_def intro: desc.child)
next
  case (step x c)
  then show ?case by (auto simp: shrinks_def intro: desc.step)
qed

lemma desc_trans: "desc h c x \<Longrightarrow> desc h s c \<Longrightarrow> desc h s x"
  by (induction rule: desc.induct) (auto intro: desc.step)

lemma desc_depth: "desc h x y \<Longrightarrow> depth_le d h x \<Longrightarrow> \<exists>d'<d. depth_le d' h y"
proof (induction arbitrary: rule: desc.induct)
  case (child c)
  then show ?case by (cases d) auto
next
  case (step y c)
  then obtain d' where d': "d' < d" "depth_le d' h y" by blast
  with step.hyps(2) show ?case by (cases d') (auto intro: less_trans)
qed

lemma depth_acyclic: "depth_le d h x \<Longrightarrow> \<not> desc h x x"
proof (induction d arbitrary: rule: less_induct)
  case (less d)
  show ?case
  proof
    assume "desc h x x"
    from desc_depth[OF this less.prems] obtain d' where "d' < d" "depth_le d' h x" by blast
    with less.IH \<open>desc h x x\<close> show False by blast
  qed
qed

lemma shrinks_del:
  "shrinks (heap s) (heap (upd x (\<lambda>sc. sc\<lparr>f_children := del_at i (f_children sc)\<rparr>) s))"
  using only_cancels_shrinks[OF only_cancels_del] .

lemma cancel_loop_returns_aux:
  assumes IH: "\<And>held s self cs. depth_le d (heap s) self \<Longrightarrow> self \<notin> held \<Longrightarrow>
          (\<forall>x. desc (heap s) self x \<longrightarrow> x \<notin> held) \<Longrightarrow>
          \<exists>r s'. u_cancel (Suc d) held s self cs = Some (r, s')"
  shows "(\<forall>(i, c) \<in> set xs. depth_le d (heap s) c \<and> c \<notin> H \<and> (\<forall>x. desc (heap s) c x \<longrightarrow> x \<notin> H)) \<Longrightarrow>
         \<exists>r s'. cancel_loop (Suc d) H s self xs = Some (r, s')"
proof (induction xs arbitrary: s)
  case Nil
  then show ?case by simp
next
  case (Cons a xs)
  obtain i c where a: "a = (i, c)" by (cases a)
  from Cons.prems a have c: "depth_le d (heap s) c" "c \<notin> H" "\<forall>x. desc (heap s) c x \<longrightarrow> x \<notin> H"
    by auto
  from IH[OF c] obtain r1 s1 where r1: "u_cancel (Suc d) H s c self = Some (r1, s1)" by blast
  show ?case
  proof (cases r1)
    case (Raise e)
    with r1 a show ?thesis by simp
  next
    case (Return b)
    show ?thesis
    proof (cases "i < length (f_children (heap s1 self))")
      case False
      with r1 a Return show ?thesis by simp
    next
      case True
      let ?s2 = "upd self (\<lambda>sc. sc\<lparr>f_children := del_at i (f_children sc)\<rparr>) s1"
      have sh: "shrinks (heap s) (heap ?s2)"
        using only_cancels_shrinks[OF u_cancel_only_cancels[OF r1]] shrinks_del shrinks_trans
        by blast
      have "\<forall>(i, c) \<in> set xs. depth_le d (heap ?s2) c \<and> c \<notin> H \<and>
              (\<forall>x. desc (heap ?s2) c x \<longrightarrow> x \<notin> H)"
      proof (clarify, intro conjI allI impI)
        fix j c' assume "(j, c') \<in> set xs"
        with Cons.prems have p: "depth_le d (heap s) c'" "c' \<notin> H"
          "\<forall>x. desc (heap s) c' x \<longrightarrow> x \<notin> H" by auto
        show "depth_le d (heap ?s2) c'" using sh p(1) by (rule depth_le_shrinks)
        show "c' \<notin> H" by (rule p(2))
        fix x assume "desc (heap ?s2) c' x"
        then have "desc (heap s) c' x" using sh by (rule desc_shrinks)
        with p(3) show "x \<notin> H" by blast
      qed
      from Cons.IH[OF this] r1 a Return True show ?thesis by simp
    qed
  qed
qed

lemma u_cancel_returns:
  "depth_le d (heap s) self \<Longrightarrow> self \<notin> held \<Longrightarrow>
   (\<forall>x. desc (heap s) self x \<longrightarrow> x \<notin> held) \<Longrightarrow>
   \<exists>r s'. u_cancel (Suc d) held s self cs = Some (r, s')"
proof (induction d arbitrary: held s self cs)
  case 0
  then show ?case by (simp add: Let_def)
next
  case (Suc d)
  let ?s1 = "upd self (\<lambda>sc. sc\<lparr>f_cancelled := True\<rparr>) (s\<lparr>trace := trace s @ [self]\<rparr>)"
  let ?ys = "f_children (heap s self)"
  have ac: "\<not> desc (heap s) self self" using Suc.prems(1) by (rule depth_acyclic)
  have sh: "shrinks (heap s) (heap ?s1)" by (simp add: shrinks_def upd_def)
  have "\<forall>(i, c) \<in> set (rev (enumerate 0 ?ys)). depth_le d (heap ?s1) c \<and> c \<notin> insert self held \<and>
           (\<forall>x. desc (heap ?s1) c x \<longrightarrow> x \<notin> insert self held)"
  proof (clarify, intro conjI allI impI)
    fix i c assume "(i, c) \<in> set (rev (enumerate 0 ?ys))"
    then have cin: "c \<in> set ?ys" by (auto simp: in_set_enumerate_eq)
    then have dc: "desc (heap s) self c" by (rule desc.child)
    from Suc.prems(1) cin have "depth_le d (heap s) c" by simp
    then show "depth_le d (heap ?s1) c" using sh by (rule depth_le_shrinks[rotated])
    show "c \<notin> insert self held" using dc ac Suc.prems(3) by auto
    fix x assume "desc (heap ?s1) c x"
    then have "desc (heap s) c x" using sh by (rule desc_shrinks)
    then have "desc (heap s) self x" using dc by (rule desc_trans)
    moreover have "x \<noteq> self" using \<open>desc (heap s) c x\<close> dc ac desc_trans by blast
    ultimately show "x \<notin> insert self held" using Suc.prems(3) by auto
  qed
  from cancel_loop_returns_aux[OF Suc.IH this, of self]
  obtain r2 s2 where "cancel_loop (Suc d) (insert self held) ?s1 self (rev (enumerate 0 ?ys)) = Some (r2, s2)"
    by blast
  then show ?case using Suc.prems(2)
    by (cases r2) (simp_all add: Let_def)
qed

lemma cancel_loop_fuel_aux:
  assumes IH: "\<And>held s self cs v. u_cancel n held s self cs = Some v \<Longrightarrow>
                 u_cancel (Suc n) held s self cs = Some v"
  shows "cancel_loop n held s self xs = Some v \<Longrightarrow> cancel_loop (Suc n) held s self xs = Some v"
proof (induction xs arbitrary: s)
  case Nil
  then show ?case by simp
next
  case (Cons a xs)
  obtain i c where a: "a = (i, c)" by (cases a)
  from Cons.prems a obtain r1 s1 where r1: "u_cancel n held s c self = Some (r1, s1)"
    by (auto split: option.splits)
  note r1' = IH[OF r1]
  show ?case
  proof (cases r1)
    case (Raise e)
    with Cons.prems a r1 r1' show ?thesis by simp
  next
    case (Return b)
    with Cons.prems a r1 r1' show ?thesis
      by (auto split: if_splits dest: Cons.IH)
  qed
qed

lemma u_cancel_fuel_Suc:
  "u_cancel n held s self cs = Some v \<Longrightarrow> u_cancel (Suc n) held s self cs = Some v"
proof (induction n arbitrary: held s self cs v)
  case 0
  then show ?case by simp
next
  case (Suc n)
  obtain r s' where v: "v = (r, s')" by (cases v)
  from Suc.prems[unfolded v] show ?case
  proof (cases rule: u_cancel_Suc_cases)
    case already
    then show ?thesis by (simp add: v)
  next
    case refused
    then show ?thesis by (simp add: v)
  next
    case (swept r2)
    from cancel_loop_fuel_aux[OF Suc.IH swept(4)] swept(1,2,3,5) show ?thesis
      by (cases r2) (auto simp: v Let_def)
  qed
qed

lemma u_cancel_fuel:
  "u_cancel n held s self cs = Some v \<Longrightarrow> n \<le> m \<Longrightarrow> u_cancel m held s self cs = Some v"
proof (induction m)
  case 0
  then show ?case by simp
next
  case (Suc m)
  show ?case
  proof (cases "n = Suc m")
    case True
    with Suc.prems show ?thesis by simp
  next
    case False
    with Suc.prems have "n \<le> m" by simp
    from Suc.IH[OF Suc.prems(1) this] show ?thesis by (rule u_cancel_fuel_Suc)
  qed
qed

subsection \<open>The invariant\<close>

lemma constructed_fields:
  "constructed sc \<Longrightarrow> f_entered sc = None \<and> f_deadline sc = None \<and> f_token sc = None \<and>
     \<not> f_cancelled sc \<and> f_parent sc = None \<and> f_children sc = []"
  unfolding constructed_def init_def
  by (metis scope.select_convs(4,5,6,7,8,9))

lemma inv_start:
  assumes "\<forall>x. constructed (objs x)"
  shows "scope_inv (start objs clk)"
proof -
  have f: "f_entered (objs x) = None \<and> f_deadline (objs x) = None \<and> f_token (objs x) = None \<and>
     \<not> f_cancelled (objs x) \<and> f_parent (objs x) = None \<and> f_children (objs x) = []" for x
    using assms constructed_fields by blast
  have "depth_le 0 objs x" for x using f by simp
  then have "\<exists>d. \<forall>x. depth_le d objs x" by blast
  then show ?thesis
    unfolding scope_inv_def core_def wf_heap_def lawful_def start_def
    by (simp add: f)
qed

lemma core_parent:
  "core s \<Longrightarrow> f_parent (heap s c) = Some p \<Longrightarrow>
     p \<noteq> c \<and> f_entered (heap s c) \<noteq> None \<and> f_entered (heap s p) \<noteq> None"
  unfolding core_def by blast

lemma core_current: "core s \<Longrightarrow> current s = Some p \<Longrightarrow> f_entered (heap s p) \<noteq> None"
  unfolding core_def by blast

lemma core_token:
  "core s \<Longrightarrow> f_token (heap s c) = Some (Some p) \<Longrightarrow> f_entered (heap s p) \<noteq> None"
  unfolding core_def by blast

lemma core_wf: "core s \<Longrightarrow> wf_heap (heap s)"
  unfolding core_def by blast

lemma wf_child: "wf_heap h \<Longrightarrow> c \<in> set (f_children (h p)) \<Longrightarrow> f_parent (h c) = Some p"
  unfolding wf_heap_def by blast

lemma wf_distinct: "wf_heap h \<Longrightarrow> distinct (f_children (h p))"
  unfolding wf_heap_def by blast

lemma wf_cancelled: "wf_heap h \<Longrightarrow> f_cancelled (h p) \<Longrightarrow> f_children (h p) = []"
  unfolding wf_heap_def by blast

lemma wf_depth: "wf_heap h \<Longrightarrow> \<exists>d. \<forall>x. depth_le d h x"
  unfolding wf_heap_def by blast

lemma core_unentered:
  assumes "core s" "f_entered (heap s c) = None"
  shows "f_children (heap s c) = []" "f_parent (heap s c) = None"
    "\<And>x. c \<notin> set (f_children (heap s x))" "\<And>x. f_parent (heap s x) \<noteq> Some c"
    "current s \<noteq> Some c" "\<And>x. f_token (heap s x) \<noteq> Some (Some c)"
proof -
  show "f_parent (heap s c) = None"
    using core_parent[OF assms(1), of c] assms(2) by (cases "f_parent (heap s c)") auto
  show p: "f_parent (heap s x) \<noteq> Some c" for x
    using core_parent[OF assms(1), of x c] assms(2) by auto
  show n: "c \<notin> set (f_children (heap s x))" for x
    using wf_child[OF core_wf[OF assms(1)], of c x] core_parent[OF assms(1), of c x] assms(2)
    by auto
  show "f_children (heap s c) = []"
  proof (cases "f_children (heap s c)")
    case (Cons y ys)
    then have "f_parent (heap s y) = Some c"
      using wf_child[OF core_wf[OF assms(1)], of y c] by simp
    with p show ?thesis by blast
  qed simp
  show "current s \<noteq> Some c" using core_current[OF assms(1), of c] assms(2) by auto
  show "f_token (heap s x) \<noteq> Some (Some c)" for x
    using core_token[OF assms(1), of x c] assms(2) by auto
qed

lemma u_cancel_leaf:
  assumes "f_children (heap s c) = []" "c \<notin> held"
  shows "u_cancel (Suc n) held s c cs =
     Some (if f_cancelled (heap s c) then (Return True, s\<lparr>trace := trace s @ [c]\<rparr>)
           else if Some cs = f_parent (heap s c) \<and> f_shield (heap s c)
             then (Return False, s\<lparr>trace := trace s @ [c]\<rparr>)
           else (Return True, upd c (\<lambda>sc. sc\<lparr>f_cancelled := True\<rparr>) (s\<lparr>trace := trace s @ [c]\<rparr>)))"
  using assms by (simp add: Let_def)

lemma enter_link_shape:
  assumes "enter_link n s c = Some (r, s')" and "f_parent (heap s c) = Some p"
  obtains (add_child_raised) e where "u_add_child n s p c = Some (Raise e, s')" "r = Raise e"
  | (timeout_raised) s1 ex where "u_add_child n s p c = Some (Return (), s1)"
      "\<not> f_shield (heap s c)" "r = Raise TypeError" "fst (timeout (s1\<lparr>heap := heap s'\<rparr>) p) = Raise TypeError"
      "\<forall>x. x \<noteq> c \<longrightarrow> heap s' x = heap s1 x" "heap s' c = (heap s1 c)\<lparr>f_exc := ex\<rparr>"
  | (linked) s1 ex tm where "u_add_child n s p c = Some (Return (), s1)" "r = Return ()"
      "\<forall>x. x \<noteq> c \<longrightarrow> heap s' x = heap s1 x"
      "heap s' c = (heap s1 c)\<lparr>f_exc := ex, f_timeout := tm\<rparr>"
      "current s' = current s1" "clock s' = clock s1" "trace s' = trace s1"
proof -
  from assms obtain r1 s1 where ac: "u_add_child n s p c = Some (r1, s1)"
    by (auto simp: enter_link_def split: option.splits)
  show ?thesis
  proof (cases r1)
    case (Raise e)
    with assms ac show ?thesis by (intro add_child_raised[of e]) (simp_all add: enter_link_def)
  next
    case (Return u)
    define s2 where "s2 = (if f_exc (heap s1 c) = None
                        then upd c (\<lambda>sc. sc\<lparr>f_exc := f_exc (heap s1 p)\<rparr>) s1 else s1)"
    define ex2 where "ex2 = (case f_exc (heap s1 c) of None \<Rightarrow> f_exc (heap s1 p) | Some e \<Rightarrow> Some e)"
    have h2: "\<forall>x. x \<noteq> c \<longrightarrow> heap s2 x = heap s1 x"
      "current s2 = current s1" "clock s2 = clock s1" "trace s2 = trace s1" "ticks s2 = ticks s1"
      by (simp_all add: s2_def)
    have h2c: "heap s2 c = (heap s1 c)\<lparr>f_exc := ex2\<rparr>"
      by (cases "f_exc (heap s1 c)") (simp_all add: s2_def ex2_def)
    have h2c': "heap s2 c = (heap s1 c)\<lparr>f_exc := ex2, f_timeout := f_timeout (heap s1 c)\<rparr>"
      unfolding h2c by (cases "heap s1 c") simp
    have sh: "f_shield (heap s2 c) = f_shield (heap s c)"
      using u_add_child_effect[OF ac] by (simp add: s2_def linked_def)
    show ?thesis
    proof (cases "f_shield (heap s2 c)")
      case True
      with assms ac Return have "s' = s2" "r = Return ()"
        by (simp_all add: enter_link_def s2_def Let_def)
      with ac Return h2 h2c' show ?thesis
        by (intro linked[where ?s1.0 = s1 and ex = ex2 and tm = "f_timeout (heap s1 c)"]) simp_all
    next
      case False
      obtain r3 s3 where t: "timeout s2 p = (r3, s3)" by (cases "timeout s2 p")
      note th = timeout_heap[OF t]
      show ?thesis
      proof (cases r3)
        case (Raise e)
        with assms ac \<open>r1 = Return u\<close> False t have "s' = s3" "r = Raise e"
          by (simp_all add: enter_link_def s2_def Let_def)
        moreover have "e = TypeError" using t Raise timeout_raises by blast
        moreover have "fst (timeout (s1\<lparr>heap := heap s3\<rparr>) p) = fst (timeout s2 p)"
          using th h2 by (intro timeout_cong) simp_all
        ultimately show ?thesis using ac \<open>r1 = Return u\<close> h2 h2c th False sh t Raise
          by (intro timeout_raised[where ?s1.0 = s1 and ex = ex2]) simp_all
      next
        case (Return pt)
        with assms ac \<open>r1 = Return u\<close> False t have s': "r = Return ()"
          "s' = upd c (\<lambda>sc. sc\<lparr>f_timeout :=
                         (case f_timeout sc of
                            None \<Rightarrow> Some pt
                          | Some t \<Rightarrow> Some (py_min t pt))\<rparr>) s3"
          by (simp_all add: enter_link_def s2_def Let_def)
        define tm where "tm = (case f_timeout (heap s2 c) of
                            None \<Rightarrow> Some pt
                          | Some t \<Rightarrow> Some (py_min t pt))"
        have "heap s' c = (heap s1 c)\<lparr>f_exc := ex2, f_timeout := tm\<rparr>"
          using s'(2) th h2c by (simp add: tm_def)
        with s' th h2 ac \<open>r1 = Return u\<close> show ?thesis
          by (intro linked[where ?s1.0 = s1 and ex = ex2 and tm = tm]) simp_all
      qed
    qed
  qed
qed

lemma depth_le_leaf: "f_children (h x) = [] \<Longrightarrow> depth_le d h x"
  by (cases d) simp_all

lemma depth_le_append:
  assumes c: "f_children (h c) = []" and cp: "c \<noteq> p"
    and h': "h' = h(p := (h p)\<lparr>f_children := f_children (h p) @ [c]\<rparr>)"
  shows "depth_le k h x \<Longrightarrow> depth_le (Suc k) h' x"
proof (induction k arbitrary: x)
  case 0
  have "f_children (h' c) = []" using c cp h' by simp
  then have "depth_le 0 h' c" by simp
  with 0 show ?case using h' by (cases "x = p") auto
next
  case (Suc k)
  have "f_children (h' c) = []" using c cp h' by simp
  then have lc: "depth_le (Suc k) h' c" by (rule depth_le_leaf)
  have "depth_le (Suc k) h' y" if "y \<in> set (f_children (h' x))" for y
  proof (cases "y \<in> set (f_children (h x))")
    case True
    with Suc.prems have "depth_le k h y" by simp
    then show ?thesis by (rule Suc.IH)
  next
    case False
    with that h' have "y = c" by (cases "x = p") (auto split: if_splits)
    with lc show ?thesis by simp
  qed
  then show ?case by simp
qed

lemma same_config_refl [simp]: "same_config a a"
  by (simp add: same_config_def)

lemma lawful_fields:
  assumes "lawful h c"
    and c: "f_entered (h' c) = f_entered (h c)" "f_timeout (h' c) = f_timeout (h c)"
    "f_deadline (h' c) = f_deadline (h c)" "f_parent (h' c) = f_parent (h c)"
    "f_exc (h' c) = f_exc (h c)" "f_shield (h' c) = f_shield (h c)"
    and p: "\<And>p. f_parent (h c) = Some p \<Longrightarrow>
             f_exc (h' p) = f_exc (h p) \<and> f_timeout (h' p) = f_timeout (h p)"
  shows "lawful h' c"
  using assms(1) unfolding lawful_def c by (auto simp: p)

lemma lawful_cong:
  assumes "lawful h c" and "same_config (h c) (h' c)"
    and "\<And>p. f_parent (h c) = Some p \<Longrightarrow> same_config (h p) (h' p)"
  shows "lawful h' c"
  using assms(1)
proof (rule lawful_fields)
  fix p assume "f_parent (h c) = Some p"
  from assms(3)[OF this]
  show "f_exc (h' p) = f_exc (h p) \<and> f_timeout (h' p) = f_timeout (h p)"
    by (simp add: same_config_def)
qed (use assms(2) in \<open>simp_all add: same_config_def\<close>)

lemma core_cong:
  assumes "core s" and oc: "only_cancels s s'" and t: "tidy s s'"
  shows "core s'"
proof -
  from oc have sc: "\<And>x. same_config (heap s x) (heap s' x)"
    and cur: "current s' = current s"
    and sub: "\<And>x. subseq (f_children (heap s' x)) (f_children (heap s x))"
    by (simp_all add: only_cancels_def)
  have fld: "f_parent (heap s' x) = f_parent (heap s x)" "f_entered (heap s' x) = f_entered (heap s x)"
    "f_token (heap s' x) = f_token (heap s x)" for x
    using sc[of x] by (simp_all add: same_config_def)
  note wf = core_wf[OF assms(1)]
  have "wf_heap (heap s')"
    unfolding wf_heap_def
  proof (intro conjI allI impI)
    fix p c assume "c \<in> set (f_children (heap s' p))"
    with sub[of p] have "c \<in> set (f_children (heap s p))" using subseq_set by blast
    with wf show "f_parent (heap s' c) = Some p" by (simp add: fld wf_child)
  next
    fix p show "distinct (f_children (heap s' p))"
      using sub[of p] wf_distinct[OF wf, of p] by (rule subseq_distinct)
  next
    fix p assume c: "f_cancelled (heap s' p)"
    show "f_children (heap s' p) = []"
    proof (cases "f_cancelled (heap s p)")
      case True
      with t have "heap s' p = heap s p" by (simp add: tidy_def)
      with True wf show ?thesis by (simp add: wf_cancelled)
    next
      case False
      with c t show ?thesis by (simp add: tidy_def)
    qed
  next
    from wf_depth[OF wf] obtain d where "\<forall>x. depth_le d (heap s) x" ..
    then have "\<forall>x. depth_le d (heap s') x"
      using only_cancels_shrinks[OF oc] depth_le_shrinks by blast
    then show "\<exists>d. \<forall>x. depth_le d (heap s') x" ..
  qed
  then show ?thesis using assms(1) unfolding core_def by (simp add: fld cur)
qed

lemma lawful_only_cancels:
  assumes "lawful (heap s) c" "only_cancels s s'"
  shows "lawful (heap s') c"
  using assms(1)
  by (rule lawful_cong) (use assms(2) in \<open>simp_all add: only_cancels_def\<close>)

lemma u_cancel_inv:
  assumes "scope_inv s" "u_cancel n held s self cs = Some (r, s')"
  shows "scope_inv s'"
  using assms u_cancel_only_cancels[OF assms(2)] u_cancel_tidy[OF assms(2)]
  unfolding scope_inv_def by (auto intro: core_cong lawful_only_cancels)

lemma heap_eq_inv:
  assumes "scope_inv s" "heap s' = heap s" "current s' = current s"
  shows "scope_inv s'"
  using assms unfolding scope_inv_def core_def by auto

lemma timeout_inv: "scope_inv s \<Longrightarrow> timeout s x = (r, s') \<Longrightarrow> scope_inv s'"
  using timeout_heap heap_eq_inv by blast

lemma check_inv: "scope_inv s \<Longrightarrow> check s x = (r, s') \<Longrightarrow> scope_inv s'"
  using check_heap heap_eq_inv by blast

lemma exit_inv:
  assumes "scope_inv s" "exit s c b = (r, s')"
  shows "scope_inv s'"
proof (cases "f_token (heap s c)")
  case None
  with assms show ?thesis by (simp add: exit_def)
next
  case (Some old)
  let ?s2 = "upd c (\<lambda>sc. sc\<lparr>f_token := None\<rparr>) (s\<lparr>current := old\<rparr>)"
  have h2: "f_children (heap ?s2 x) = f_children (heap s x)"
    "f_parent (heap ?s2 x) = f_parent (heap s x)"
    "f_cancelled (heap ?s2 x) = f_cancelled (heap s x)"
    "f_entered (heap ?s2 x) = f_entered (heap s x)" for x
    by (cases "x = c"; simp)+
  have sh: "shrinks (heap s) (heap ?s2)" by (simp add: shrinks_def h2)
  from assms(1) have cs: "core s" by (simp add: scope_inv_def)
  note wf = core_wf[OF cs]
  have wf2: "wf_heap (heap ?s2)"
    unfolding wf_heap_def h2
  proof (intro conjI allI impI)
    from wf_depth[OF wf] obtain d where "\<forall>x. depth_le d (heap s) x" ..
    then have "\<forall>x. depth_le d (heap ?s2) x" using sh depth_le_shrinks by blast
    then show "\<exists>d. \<forall>x. depth_le d (heap ?s2) x" ..
  qed (use wf in \<open>simp_all add: wf_child wf_distinct wf_cancelled\<close>)
  have tk: "f_entered (heap s p) \<noteq> None" if "f_token (heap ?s2 x) = Some (Some p)" for x p
  proof -
    from that have "x \<noteq> c" by auto
    with that have "f_token (heap s x) = Some (Some p)" by simp
    with cs show ?thesis by (rule core_token)
  qed
  have cu: "f_entered (heap s p) \<noteq> None" if "old = Some p" for p
    using core_token[OF cs, of c p] Some that by simp
  have c: "core ?s2"
    unfolding core_def h2
  proof (intro conjI allI impI)
    show "wf_heap (heap ?s2)" by (rule wf2)
  qed (use cs tk cu in \<open>auto dest: core_parent\<close>)
  have l: "lawful (heap ?s2) x" for x
  proof -
    from assms(1) have "lawful (heap s) x" by (simp add: scope_inv_def)
    then show ?thesis
      by (rule lawful_fields) (simp_all add: upd_def)
  qed
  have i2: "scope_inv ?s2" using c l by (simp add: scope_inv_def)
  show ?thesis
  proof (cases "b \<and> f_on_exit (heap ?s2 c)")
    case True
    with assms(2) Some have "check ?s2 c = (r, s')" by (simp add: exit_def Let_def)
    with i2 show ?thesis by (rule check_inv)
  next
    case False
    with assms(2) Some have "s' = ?s2" by (auto simp add: exit_def Let_def)
    with i2 show ?thesis by simp
  qed
qed

lemma core_fields:
  assumes "core s"
    and "\<And>x. f_children (heap t x) = f_children (heap s x)"
    and "\<And>x. f_parent (heap t x) = f_parent (heap s x)"
    and "\<And>x. f_cancelled (heap t x) = f_cancelled (heap s x)"
    and "\<And>x. f_entered (heap t x) = f_entered (heap s x)"
    and "\<And>p. current t = Some p \<Longrightarrow> f_entered (heap s p) \<noteq> None"
    and "\<And>x p. f_token (heap t x) = Some (Some p) \<Longrightarrow> f_entered (heap s p) \<noteq> None"
  shows "core t"
proof -
  note wf = core_wf[OF assms(1)]
  have sh: "shrinks (heap s) (heap t)" by (simp add: shrinks_def assms(2))
  have wf2: "wf_heap (heap t)"
    unfolding wf_heap_def assms(2,3,4)
  proof (intro conjI allI impI)
    from wf_depth[OF wf] obtain d where "\<forall>x. depth_le d (heap s) x" ..
    then have "\<forall>x. depth_le d (heap t) x" using sh depth_le_shrinks by blast
    then show "\<exists>d. \<forall>x. depth_le d (heap t) x" ..
  qed (use wf in \<open>simp_all add: wf_child wf_distinct wf_cancelled\<close>)
  show ?thesis
    unfolding core_def assms(3,5)
  proof (intro conjI allI impI)
    show "wf_heap (heap t)" by (rule wf2)
  qed (use assms(1,6,7) in \<open>auto dest: core_parent\<close>)
qed

lemma core_enter_begin:
  assumes "core s" "f_entered (heap s c) = None"
  shows "core (enter_begin s c)"
proof -
  note u = core_unentered[OF assms]
  note wf = core_wf[OF assms(1)]
  let ?b = "enter_begin s c"
  have sh: "shrinks (heap s) (heap ?b)" by (simp add: shrinks_def)
  have wf2: "wf_heap (heap ?b)"
    unfolding wf_heap_def
  proof (intro conjI allI impI)
    fix p x assume "x \<in> set (f_children (heap ?b p))"
    then have x: "x \<in> set (f_children (heap s p))" by simp
    with u(3) have "x \<noteq> c" by auto
    with x wf show "f_parent (heap ?b x) = Some p" by (simp add: wf_child)
  next
    from wf_depth[OF wf] obtain d where "\<forall>x. depth_le d (heap s) x" ..
    then have "\<forall>x. depth_le d (heap ?b) x" using sh depth_le_shrinks by blast
    then show "\<exists>d. \<forall>x. depth_le d (heap ?b) x" ..
  qed (use wf in \<open>simp_all add: wf_distinct wf_cancelled\<close>)
  have en: "f_entered (heap ?b x) \<noteq> None" if "f_entered (heap s x) \<noteq> None" for x
    using that by (cases "x = c") simp_all
  have par: "p \<noteq> x \<and> f_entered (heap ?b x) \<noteq> None \<and> f_entered (heap ?b p) \<noteq> None"
    if "f_parent (heap ?b x) = Some p" for x p
  proof (cases "x = c")
    case True
    with that have "current s = Some p" by simp
    then have ep: "f_entered (heap s p) \<noteq> None" using assms(1) by (rule core_current[rotated])
    with assms(2) have "p \<noteq> x" using True by auto
    moreover have "f_entered (heap ?b x) \<noteq> None" using True by simp
    moreover have "f_entered (heap ?b p) \<noteq> None" using ep by (rule en)
    ultimately show ?thesis by blast
  next
    case False
    with that have "f_parent (heap s x) = Some p" by simp
    from core_parent[OF assms(1) this] have "p \<noteq> x" "f_entered (heap s x) \<noteq> None"
      "f_entered (heap s p) \<noteq> None" by auto
    then show ?thesis using en by blast
  qed
  show ?thesis
    unfolding core_def
  proof (intro conjI allI impI)
    show "wf_heap (heap ?b)" by (rule wf2)
  next
    fix p assume "current ?b = Some p"
    then show "f_entered (heap ?b p) \<noteq> None" using core_current[OF assms(1), of p] en by simp
  next
    fix x p assume "f_token (heap ?b x) = Some (Some p)"
    then show "f_entered (heap ?b p) \<noteq> None" using core_token[OF assms(1), of x p] en by simp
  qed (use par in blast)+
qed

lemma u_add_child_core:
  assumes "core s" and "f_parent (heap s c) = Some p" and "f_children (heap s c) = []"
    and "\<And>x. c \<notin> set (f_children (heap s x))"
    and "u_add_child n s p c = Some (r, s')"
  shows "r = Return () \<and> core s' \<and> (\<forall>x. same_config (heap s x) (heap s' x)) \<and>
         f_children (heap s' c) = []"
proof -
  from core_parent[OF assms(1,2)] have cp: "c \<noteq> p" by auto
  show ?thesis
  proof (cases "f_cancelled (heap s p)")
    case True
    with assms(5) cp obtain r1 where uc: "u_cancel n {p} s c p = Some (r1, s')"
      and r: "r = (case r1 of Return b \<Rightarrow> Return () | Raise e \<Rightarrow> Raise e)"
      by (auto simp: u_add_child_def split: option.splits outcome.splits)
    note oc = u_cancel_only_cancels[OF uc]
    note td = u_cancel_tidy[OF uc]
    from td r have "r = Return ()" by auto
    moreover have "core s'" using assms(1) oc td by (auto intro: core_cong)
    moreover have "\<forall>x. same_config (heap s x) (heap s' x)" using oc by (simp add: only_cancels_def)
    moreover have "f_children (heap s' c) = []"
      using only_cancels_shrinks[OF oc] assms(3) by (rule shrinks_empty)
    ultimately show ?thesis by blast
  next
    case False
    with assms(5) cp have r: "r = Return ()"
      and s': "s' = upd p (\<lambda>sc. sc\<lparr>f_children := f_children sc @ [c]\<rparr>) s"
      by (simp_all add: u_add_child_def)
    note wf = core_wf[OF assms(1)]
    have h: "heap s' = (heap s)(p := (heap s p)\<lparr>f_children := f_children (heap s p) @ [c]\<rparr>)"
      by (simp add: s' upd_def)
    have ch: "f_children (heap s' x) = (if x = p then f_children (heap s p) @ [c] else f_children (heap s x))" for x
      by (simp add: h)
    have fl: "f_parent (heap s' x) = f_parent (heap s x)" "f_cancelled (heap s' x) = f_cancelled (heap s x)"
      "f_entered (heap s' x) = f_entered (heap s x)" "f_token (heap s' x) = f_token (heap s x)" for x
      by (simp_all add: h)
    have wf2: "wf_heap (heap s')"
      unfolding wf_heap_def
    proof (intro conjI allI impI)
      fix q x assume "x \<in> set (f_children (heap s' q))"
      then show "f_parent (heap s' x) = Some q"
        using wf_child[OF wf, of x q] assms(2) by (auto simp: ch fl split: if_splits)
    next
      fix q show "distinct (f_children (heap s' q))"
        using wf_distinct[OF wf, of q] assms(4)[of p] by (auto simp add: ch)
    next
      fix q assume "f_cancelled (heap s' q)"
      then show "f_children (heap s' q) = []"
        using wf_cancelled[OF wf, of q] False by (auto simp: ch fl)
    next
      from wf_depth[OF wf] obtain d where "\<forall>x. depth_le d (heap s) x" ..
      then have "\<forall>x. depth_le (Suc d) (heap s') x"
        using depth_le_append[OF assms(3) cp h] by blast
      then show "\<exists>d. \<forall>x. depth_le d (heap s') x" ..
    qed
    have "core s'"
      unfolding core_def fl
    proof (intro conjI allI impI)
      show "wf_heap (heap s')" by (rule wf2)
    qed (use assms(1) in \<open>auto simp: s' dest: core_parent core_current core_token\<close>)
    moreover have "\<forall>x. same_config (heap s x) (heap s' x)" by (simp add: h same_config_def)
    moreover have "f_children (heap s' c) = []" using cp assms(3) by (simp add: ch)
    ultimately show ?thesis using r by blast
  qed
qed

lemma timeout_no_raise:
  assumes "lawful (heap s) p"
  shows "fst (timeout s p) \<noteq> Raise e"
  using assms unfolding lawful_def timeout_def
  by (auto simp: time_def Let_def split: option.splits)

lemma f_sub_PInf: "f_sub d t = PInf \<Longrightarrow> d = PInf"
  by (cases d) simp_all

lemma f_add_PInf: "f_add e t = PInf \<Longrightarrow> t = PInf"
  by (cases t) simp_all

lemma timeout_PInf:
  assumes "lawful (heap s) p" "f_entered (heap s p) \<noteq> None" "fst (timeout s p) = Return PInf"
  shows "eff (f_timeout (heap s p)) = PInf \<and> \<not> f_cancelled (heap s p)"
proof (cases "f_timeout (heap s p)")
  case None
  with assms(3) show ?thesis by (auto simp: timeout_def split: if_splits)
next
  case (Some t)
  from assms(2) obtain e where e: "f_entered (heap s p) = Some e" by auto
  with assms(1) Some have d: "f_deadline (heap s p) = Some (f_add e t)" by (simp add: lawful_def)
  from assms(3) Some e d have nc: "\<not> f_cancelled (heap s p)"
    and "(if f_le0 (f_sub (f_add e t) (clock s (ticks s))) then Fin 0
          else f_sub (f_add e t) (clock s (ticks s))) = PInf"
    by (auto simp: timeout_def time_def Let_def split: if_splits)
  then have "f_sub (f_add e t) (clock s (ticks s)) = PInf" by (auto split: if_splits)
  then have "t = PInf" using f_sub_PInf f_add_PInf by blast
  with Some nc show ?thesis by simp
qed

lemma min_eq_PInf: "min a b = PInf \<Longrightarrow> a = PInf \<and> b = PInf"
  by (cases a; cases b) (auto simp: min_def less_eq_pyfloat_def split: if_splits)

lemma enter_link_inv:
  assumes i: "scope_inv s" and ne: "f_entered (heap s c) = None"
    and lk: "enter_link n (enter_begin s c) c = Some (r, s4)"
  shows "r = Return ()" and "core s4" and "\<And>x. x \<noteq> c \<Longrightarrow> lawful (heap s4) x"
    and "\<And>p. f_parent (heap s4 c) = Some p \<Longrightarrow> f_exc (heap s4 c) = None \<Longrightarrow> f_exc (heap s4 p) = None"
    and "\<And>p. f_parent (heap s4 c) = Some p \<Longrightarrow> \<not> f_shield (heap s4 c) \<Longrightarrow>
            eff (f_timeout (heap s4 c)) = PInf \<Longrightarrow> eff (f_timeout (heap s4 p)) = PInf"
    and "f_entered (heap s4 c) = Some (fst (time s))"
    and "\<And>x. f_parent (heap s4 x) \<noteq> Some c"
    and "current s4 = current s"
    and "f_deadline (heap s4 c) = None"
proof -
  let ?b = "enter_begin s c"
  from i have cs: "core s" and ls: "\<And>x. lawful (heap s) x" by (simp_all add: scope_inv_def)
  note u = core_unentered[OF cs ne]
  have cb: "core ?b" using cs ne by (rule core_enter_begin)
  have lb: "lawful (heap ?b) x" if "x \<noteq> c" for x
    using ls[of x]
  proof (rule lawful_fields)
    fix p assume "f_parent (heap s x) = Some p"
    with u(4) have "p \<noteq> c" by auto
    then show "f_exc (heap ?b p) = f_exc (heap s p) \<and> f_timeout (heap ?b p) = f_timeout (heap s p)"
      by simp
  qed (use that in simp_all)
  have npb: "f_parent (heap ?b x) \<noteq> Some c" for x
    using u(4)[of x] u(5) by (cases "x = c") simp_all
  have "r = Return () \<and> core s4 \<and> (\<forall>x. x \<noteq> c \<longrightarrow> lawful (heap s4) x) \<and>
      linked c ?b s4 \<and>
      (\<forall>p. f_parent (heap s4 c) = Some p \<longrightarrow> f_exc (heap s4 c) = None \<longrightarrow> f_exc (heap s4 p) = None) \<and>
      (\<forall>p. f_parent (heap s4 c) = Some p \<longrightarrow> \<not> f_shield (heap s4 c) \<longrightarrow>
            eff (f_timeout (heap s4 c)) = PInf \<longrightarrow> eff (f_timeout (heap s4 p)) = PInf)"
  proof (cases "current s")
    case None
    then have "f_parent (heap ?b c) = None" by simp
    with lk have "r = Return ()" "s4 = ?b" by (simp_all add: enter_link_def)
    with cb lb None show ?thesis by (simp add: linked_refl)
  next
    case (Some p)
    then have par: "f_parent (heap ?b c) = Some p" by simp
    from core_parent[OF cb par] have cp: "c \<noteq> p" and ep: "f_entered (heap ?b p) \<noteq> None" by auto
    have chb: "f_children (heap ?b c) = []" using u(1) by simp
    have nib: "c \<notin> set (f_children (heap ?b x))" for x using u(3) by simp
    have rest: "\<forall>x. x \<noteq> c \<longrightarrow> lawful (heap t) x"
      if ac: "u_add_child n ?b p c = Some (Return (), s1)"
        and eq: "\<forall>x. x \<noteq> c \<longrightarrow> heap t x = heap s1 x" for s1 t
    proof (intro allI impI)
      fix x assume x: "x \<noteq> c"
      from u_add_child_core[OF cb par chb nib ac]
      have sc: "\<And>y. same_config (heap ?b y) (heap s1 y)" by blast
      from lb[OF x] show "lawful (heap t) x"
      proof (rule lawful_fields)
        fix q assume "f_parent (heap ?b x) = Some q"
        with npb have "q \<noteq> c" by auto
        with eq sc[of q]
        show "f_exc (heap t q) = f_exc (heap ?b q) \<and> f_timeout (heap t q) = f_timeout (heap ?b q)"
          by (simp add: same_config_def)
      qed (use x eq sc[of x] in \<open>simp_all add: same_config_def\<close>)
    qed
    from lk par show ?thesis
    proof (cases rule: enter_link_shape)
      case (add_child_raised e)
      from u_add_child_core[OF cb par chb nib add_child_raised(1)] show ?thesis by simp
    next
      case (timeout_raised s1 ex)
      from rest[OF timeout_raised(1,5)] cp have "lawful (heap s4) p" by simp
      then have "lawful (heap (s1\<lparr>heap := heap s4\<rparr>)) p" by simp
      from timeout_no_raise[OF this, of TypeError] timeout_raised(4) show ?thesis by simp
    next
      case (linked s1 ex tm)
      note ac = u_add_child_core[OF cb par chb nib linked(1)]
      have c4: "core s4"
      proof (rule core_fields)
        show "core s1" using ac by simp
      next
        fix x show "f_children (heap s4 x) = f_children (heap s1 x)"
          "f_parent (heap s4 x) = f_parent (heap s1 x)"
          "f_cancelled (heap s4 x) = f_cancelled (heap s1 x)"
          "f_entered (heap s4 x) = f_entered (heap s1 x)"
          using linked(3,4) by (cases "x = c"; simp)+
      next
        fix q assume "current s4 = Some q"
        with linked(5) have "current s1 = Some q" by simp
        with ac show "f_entered (heap s1 q) \<noteq> None" using core_current by blast
      next
        fix x q assume "f_token (heap s4 x) = Some (Some q)"
        then have "f_token (heap s1 x) = Some (Some q)" using linked(3,4) by (cases "x = c") simp_all
        with ac show "f_entered (heap s1 q) \<noteq> None" using core_token by blast
      qed
      have lk': "enter_link n ?b c = Some (Return (), s4)" using lk linked(2) by simp
      note le = enter_link_effect[OF lk']
      from le have ln: "linked c ?b s4" by simp
      note pt = enter_link_parts[OF lk' par]
      have p4: "f_exc (heap s4 p) = f_exc (heap ?b p)" "f_timeout (heap s4 p) = f_timeout (heap ?b p)"
        "f_parent (heap s4 c) = Some p" "f_shield (heap s4 c) = f_shield (heap ?b c)"
        using ln cp par by (simp_all add: linked_def)
      have J: "f_exc (heap s4 p) = None" if "f_exc (heap s4 c) = None"
        using pt(2) that p4(1) by (cases "f_exc (heap ?b c)") simp_all
      have M: "eff (f_timeout (heap s4 p)) = PInf"
        if ns: "\<not> f_shield (heap s4 c)" and inf: "eff (f_timeout (heap s4 c)) = PInf"
      proof -
        from ns p4(4) have "\<not> f_shield (heap ?b c)" by simp
        from pt(4)[OF this] obtain r' where r': "fst (timeout ?b p) = Return r'"
          "f_timeout (heap s4 c) = Some (min (eff (f_timeout (heap ?b c))) r')" by blast
        with inf have "min (eff (f_timeout (heap ?b c))) r' = PInf" by simp
        then have "r' = PInf" using min_eq_PInf by blast
        with r' timeout_PInf[OF lb[OF cp[symmetric]] ep] have "eff (f_timeout (heap ?b p)) = PInf"
          by simp
        with p4(2) show ?thesis by simp
      qed
      have J': "\<forall>q. f_parent (heap s4 c) = Some q \<longrightarrow> f_exc (heap s4 c) = None \<longrightarrow>
          f_exc (heap s4 q) = None"
        using J p4(3) by simp
      have M': "\<forall>q. f_parent (heap s4 c) = Some q \<longrightarrow> \<not> f_shield (heap s4 c) \<longrightarrow>
            eff (f_timeout (heap s4 c)) = PInf \<longrightarrow> eff (f_timeout (heap s4 q)) = PInf"
        using M p4(3) by simp
      from linked(2) c4 rest[OF linked(1,3)] ln J' M' show ?thesis by blast
    qed
  qed
  then have a: "r = Return ()" "core s4" "\<forall>x. x \<noteq> c \<longrightarrow> lawful (heap s4) x" "linked c ?b s4"
    "\<forall>p. f_parent (heap s4 c) = Some p \<longrightarrow> f_exc (heap s4 c) = None \<longrightarrow> f_exc (heap s4 p) = None"
    "\<forall>p. f_parent (heap s4 c) = Some p \<longrightarrow> \<not> f_shield (heap s4 c) \<longrightarrow>
            eff (f_timeout (heap s4 c)) = PInf \<longrightarrow> eff (f_timeout (heap s4 p)) = PInf"
    by blast+
  show "r = Return ()" "core s4" by (rule a)+
  show "lawful (heap s4) x" if "x \<noteq> c" for x using a(3) that by blast
  show "f_exc (heap s4 p) = None" if "f_parent (heap s4 c) = Some p" "f_exc (heap s4 c) = None" for p
    using a(5) that by blast
  show "eff (f_timeout (heap s4 p)) = PInf"
    if "f_parent (heap s4 c) = Some p" "\<not> f_shield (heap s4 c)" "eff (f_timeout (heap s4 c)) = PInf" for p
    using a(6) that by blast
  show "f_entered (heap s4 c) = Some (fst (time s))" using a(4) by (simp add: linked_def)
  show "f_parent (heap s4 x) \<noteq> Some c" for x using a(4) npb[of x] by (simp add: linked_def)
  show "current s4 = current s" using a(4) by (simp add: linked_def)
  have "f_deadline (heap s c) = None" using ls[of c] ne by (simp add: lawful_def)
  then show "f_deadline (heap s4 c) = None" using a(4) by (simp add: linked_def)
qed

lemma enter_inv:
  assumes i: "scope_inv s" and en: "enter n s c = Some (res, s')"
  shows "scope_inv s'"
proof (cases "f_entered (heap s c)")
  case (Some t)
  with en i show ?thesis by (simp add: enter_def)
next
  case None
  from None en show ?thesis
  proof (cases rule: enter_unfold)
    case (1 e)
    from enter_link_inv(1)[OF i None 1(1)] show ?thesis by simp
  next
    case (2 u s4)
    note li = enter_link_inv[OF i None 2(1)]
    note fe = enter_finish_effect[OF 2(2)]
    from fe have oth: "\<And>x. x \<noteq> c \<Longrightarrow> heap s' x = heap s4 x" by simp
    from fe obtain d k where hc: "heap s' c = (heap s4 c)\<lparr>f_deadline := d, f_token := k\<rparr>" by blast
    have fl: "f_children (heap s' x) = f_children (heap s4 x)"
      "f_parent (heap s' x) = f_parent (heap s4 x)"
      "f_cancelled (heap s' x) = f_cancelled (heap s4 x)"
      "f_entered (heap s' x) = f_entered (heap s4 x)"
      "f_exc (heap s' x) = f_exc (heap s4 x)"
      "f_timeout (heap s' x) = f_timeout (heap s4 x)"
      "f_shield (heap s' x) = f_shield (heap s4 x)" for x
      using oth[of x] hc by (cases "x = c"; simp)+
    have cur: "f_entered (heap s4 q) \<noteq> None" if "current s' = Some q" for q
    proof (cases res)
      case (Return v)
      with fe that have "q = c" by simp
      with li(6) show ?thesis by simp
    next
      case (Raise e)
      with fe that have "current s4 = Some q" by simp
      with li(2) show ?thesis using core_current by blast
    qed
    have tok: "f_entered (heap s4 q) \<noteq> None" if t: "f_token (heap s' x) = Some (Some q)" for x q
    proof (cases "x = c")
      case False
      with t oth have "f_token (heap s4 x) = Some (Some q)" by simp
      with li(2) show ?thesis using core_token by blast
    next
      case True
      show ?thesis
      proof (cases res)
        case (Return v)
        with fe t True have "current s4 = Some q" by simp
        with li(2) show ?thesis using core_current by blast
      next
        case (Raise e)
        with fe t True have "f_token (heap s4 c) = Some (Some q)" by simp
        with li(2) show ?thesis using core_token by blast
      qed
    qed
    have c': "core s'"
      using li(2) fl(1-4) cur tok by (rule core_fields)
    have l': "lawful (heap s') x" for x
    proof (cases "x = c")
      case False
      from li(3)[OF False] show ?thesis
      proof (rule lawful_fields)
        fix q assume "f_parent (heap s4 x) = Some q"
        show "f_exc (heap s' q) = f_exc (heap s4 q) \<and> f_timeout (heap s' q) = f_timeout (heap s4 q)"
          by (simp add: fl)
      qed (use False oth in simp_all)
    next
      case True
      have g: "f_deadline (heap s' c) = Some (f_add e t)"
        if "f_entered (heap s' c) = Some e" "f_timeout (heap s' c) = Some t" for e t
      proof -
        from that have "f_entered (heap s4 c) = Some e" "f_timeout (heap s4 c) = Some t"
          by (simp_all add: fl)
        with fe show ?thesis by simp
      qed
      have g0: "f_deadline (heap s' c) = None"
        if "f_entered (heap s4 c) = None \<or> f_timeout (heap s4 c) = None"
      proof -
        from that li(6) have "f_timeout (heap s4 c) = None" by simp
        with fe li(6,9) show ?thesis by simp
      qed
      show ?thesis
        unfolding True lawful_def fl
      proof (intro conjI allI impI)
        fix e t assume "f_entered (heap s4 c) = Some e" "f_timeout (heap s4 c) = Some t"
        then show "f_deadline (heap s' c) = Some (f_add e t)" using g by (simp add: fl)
      next
        assume "f_entered (heap s4 c) = None \<or> f_timeout (heap s4 c) = None"
        then show "f_deadline (heap s' c) = None" by (rule g0)
      qed (use li(4,5) in blast)+
    qed
    from c' l' show ?thesis by (simp add: scope_inv_def)
  qed
qed

lemma exec_inv: "scope_inv s \<Longrightarrow> exec n s c = Some s' \<Longrightarrow> scope_inv s'"
proof (cases c)
  case (Enter x)
  then show "scope_inv s \<Longrightarrow> exec n s c = Some s' \<Longrightarrow> scope_inv s'" by (auto dest: enter_inv)
next
  case (Exit x b)
  then show "scope_inv s \<Longrightarrow> exec n s c = Some s' \<Longrightarrow> scope_inv s'"
    by (cases "exit s x b") (auto dest: exit_inv)
next
  case (Cancel x)
  then show "scope_inv s \<Longrightarrow> exec n s c = Some s' \<Longrightarrow> scope_inv s'"
    by (auto simp: cancel_def dest: u_cancel_inv)
next
  case (Cancelled x)
  then show "scope_inv s \<Longrightarrow> exec n s c = Some s' \<Longrightarrow> scope_inv s'" by auto
next
  case (RemainingTimeout x)
  then show "scope_inv s \<Longrightarrow> exec n s c = Some s' \<Longrightarrow> scope_inv s'"
    by (cases "timeout s x") (auto dest: timeout_inv)
next
  case (Check x)
  then show "scope_inv s \<Longrightarrow> exec n s c = Some s' \<Longrightarrow> scope_inv s'"
    by (cases "check s x") (auto dest: check_inv)
qed

lemma run_inv: "scope_inv s \<Longrightarrow> run n s cs = Some s' \<Longrightarrow> scope_inv s'"
proof (induction cs arbitrary: s)
  case Nil
  then show ?case by simp
next
  case (Cons c cs)
  then show ?case by (auto split: option.splits dest: exec_inv)
qed

lemma reachable_inv:
  "\<forall>x. constructed (objs x) \<Longrightarrow> run n (start objs clk) cs = Some s \<Longrightarrow> scope_inv s"
  using inv_start run_inv by blast

lemmas ev3 = ev2 shielded_child_def shielded_pair_def shielded_pair_cancelled_def

lemma constructed_init [simp]: "constructed (init a b c d e)"
  by (simp add: constructed_def init_def)

lemma constructed_plain [simp]: "constructed plain"
  by (simp add: plain_def)

subsection \<open>Refusal under a shield, and cancelling oneself\<close>

lemma u_cancel_False:
  assumes "u_cancel k held s self origin = Some (Return False, s')"
  shows "\<not> f_cancelled (heap s self) \<and> f_parent (heap s self) = Some origin \<and>
         f_shield (heap s self) \<and> s' = s\<lparr>trace := trace s @ [self]\<rparr>"
proof (cases k)
  case 0
  with assms show ?thesis by simp
next
  case (Suc n)
  from assms[unfolded Suc] show ?thesis
    by (cases rule: u_cancel_Suc_cases) (auto split: outcome.splits)
qed

lemma cancel_returns:
  assumes "scope_inv s"
  shows "\<exists>m t. (\<forall>k\<ge>m. cancel k s self = Some (Return True, t)) \<and> cancelled t self \<and>
           (cancelled s self \<longrightarrow> heap t = heap s)"
proof -
  from assms have cs: "core s" by (simp add: scope_inv_def)
  from wf_depth[OF core_wf[OF cs]] obtain d where d: "\<forall>x. depth_le d (heap s) x" ..
  then have "depth_le d (heap s) self" by simp
  from u_cancel_returns[OF this, of "{}" self] obtain r t
    where u: "u_cancel (Suc d) {} s self self = Some (r, t)" by blast
  from u_cancel_tidy[OF u] obtain b where r: "r = Return b" by blast
  have b: "b"
  proof (rule ccontr)
    assume "\<not> b"
    with u r have "u_cancel (Suc d) {} s self self = Some (Return False, t)"
      by (simp del: u_cancel.simps)
    from u_cancel_False[OF this] have "f_parent (heap s self) = Some self" by simp
    from core_parent[OF cs this] show False by simp
  qed
  have ct: "f_cancelled (heap t self)"
    using u
  proof (cases rule: u_cancel_Suc_cases)
    case already
    then show ?thesis by simp
  next
    case refused
    with r b show ?thesis by simp
  next
    case (swept r2)
    from cancel_loop_only_cancels[OF swept(4)] show ?thesis
      by (auto simp: only_cancels_def)
  qed
  have same: "heap t = heap s" if "f_cancelled (heap s self)"
    using u that by (cases rule: u_cancel_Suc_cases) simp_all
  have "\<forall>k\<ge>Suc d. cancel k s self = Some (Return True, t)"
  proof (intro allI impI)
    fix k assume "Suc d \<le> k"
    from u_cancel_fuel[OF u this] r b show "cancel k s self = Some (Return True, t)"
      by (simp add: cancel_def)
  qed
  with ct same show ?thesis unfolding cancelled_def by blast
qed

text \<open>
  C5, as amended. \<open>_cancel\<close> returns \<open>False\<close> exactly when the target is not already
  cancelled, the origin is the target's parent and the target is shielded; the heap is
  then as it was. \<open>cancel\<close> passes the scope itself as origin; in a reachable state no
  scope is its own parent, so \<open>cancel\<close> returns (with enough fuel for the depth of the
  tree) and returns \<open>True\<close>, leaving the scope cancelled, and leaving the heap as it was
  when the scope was cancelled already.
\<close>

theorem refusal_and_self_cancel:
  "(self \<notin> held \<longrightarrow>
      ((\<exists>s'. u_cancel (Suc n) held s self origin = Some (Return False, s')) \<longleftrightarrow>
       (\<not> f_cancelled (heap s self) \<and> f_parent (heap s self) = Some origin \<and>
        f_shield (heap s self)))) \<and>
   (u_cancel k held s self origin = Some (Return False, t) \<longrightarrow> heap t = heap s) \<and>
   cancel k s self = u_cancel k {} s self self \<and>
   (scope_inv s \<longrightarrow>
      (\<exists>m t. (\<forall>k\<ge>m. cancel k s self = Some (Return True, t)) \<and> cancelled t self \<and>
             (cancelled s self \<longrightarrow> heap t = heap s)))"
proof (intro conjI impI)
  assume nh: "self \<notin> held"
  show "(\<exists>s'. u_cancel (Suc n) held s self origin = Some (Return False, s')) \<longleftrightarrow>
       (\<not> f_cancelled (heap s self) \<and> f_parent (heap s self) = Some origin \<and>
        f_shield (heap s self))"
  proof
    assume "\<exists>s'. u_cancel (Suc n) held s self origin = Some (Return False, s')"
    then obtain s' where "u_cancel (Suc n) held s self origin = Some (Return False, s')" ..
    from u_cancel_False[OF this]
    show "\<not> f_cancelled (heap s self) \<and> f_parent (heap s self) = Some origin \<and>
        f_shield (heap s self)" by simp
  next
    assume "\<not> f_cancelled (heap s self) \<and> f_parent (heap s self) = Some origin \<and>
        f_shield (heap s self)"
    with nh have "u_cancel (Suc n) held s self origin
        = Some (Return False, s\<lparr>trace := trace s @ [self]\<rparr>)"
      by (simp add: Let_def)
    then show "\<exists>s'. u_cancel (Suc n) held s self origin = Some (Return False, s')" ..
  qed
next
  assume "u_cancel k held s self origin = Some (Return False, t)"
  from u_cancel_False[OF this] show "heap t = heap s" by simp
next
  show "cancel k s self = u_cancel k {} s self self" by (simp add: cancel_def)
next
  assume "scope_inv s"
  then show "\<exists>m t. (\<forall>k\<ge>m. cancel k s self = Some (Return True, t)) \<and> cancelled t self \<and>
             (cancelled s self \<longrightarrow> heap t = heap s)"
    by (rule cancel_returns)
qed

theorem refusal_and_self_cancel_witness:
  "(1::nat) \<notin> {0} \<and>
   u_cancel (Suc 0) {0} shielded_pair 1 0
     = Some (Return False, shielded_pair\<lparr>trace := [1]\<rparr>) \<and>
   heap (shielded_pair\<lparr>trace := [1]\<rparr>) = heap shielded_pair \<and>
   scope_inv shielded_pair \<and>
   (\<exists>m t. (\<forall>k\<ge>m. cancel k shielded_pair 1 = Some (Return True, t)) \<and> cancelled t 1)"
proof -
  have a: "(1::nat) \<notin> {0}" by simp
  have b: "u_cancel (Suc 0) {0} shielded_pair 1 0 = Some (Return False, shielded_pair\<lparr>trace := [1]\<rparr>)"
    by (simp add: ev3)
  have r: "run 1 (start shielded_child clock0) [Enter 0, Enter 1] = Some shielded_pair"
    by (simp add: ev3)
  have c: "scope_inv shielded_pair"
    by (rule reachable_inv[OF _ r]) (simp add: shielded_child_def)
  have e: "heap (shielded_pair\<lparr>trace := [1]\<rparr>) = heap shielded_pair" by simp
  from refusal_and_self_cancel[where self = 1 and held = "{0}" and s = shielded_pair] c
  have d: "\<exists>m t. (\<forall>k\<ge>m. cancel k shielded_pair 1 = Some (Return True, t)) \<and> cancelled t 1"
    by blast
  show ?thesis
    by (intro conjI) (rule a b e c d)+
qed

text \<open>
  C5 as stated fails for a shielded scope that has cancelled itself: when its parent is
  then cancelled, \<open>_cancel\<close> with the parent as origin returns \<open>True\<close>.
\<close>

theorem shielded_parent_cancel_returns_true_counterexample:
  "f_parent (heap shielded_pair_cancelled 1) = Some 0 \<and>
   f_shield (heap shielded_pair_cancelled 1) \<and>
   fst (the (u_cancel (Suc 0) {0} shielded_pair_cancelled 1 0)) = Return True"
  by (simp add: ev3)

lemmas ev5 = ev3 dead_root_def custom_parent_def custom_running_def zero_timeouts_def

subsection \<open>Entering under a cancelled parent\<close>

lemma enter_link_total:
  assumes "u_add_child n s p c = Some (ra, s1)" and "f_parent (heap s c) = Some p"
  shows "\<exists>r s'. enter_link n s c = Some (r, s')"
proof (cases ra)
  case (Raise e)
  with assms show ?thesis by (simp add: enter_link_def)
next
  case (Return u)
  with assms show ?thesis
    by (auto simp: enter_link_def Let_def split: prod.splits outcome.splits)
qed

text \<open>
  C2, as amended. A scope \<open>c\<close> entered while the current scope \<open>p\<close> is already
  cancelled: \<open>_add_child\<close> is the call of \<open>c._cancel(p)\<close> and nothing else;
  \<open>__enter__\<close> returns or raises (it does not hang), no children list has changed, so
  that \<open>c\<close> is registered nowhere, \<open>_cancel\<close> has been invoked on \<open>c\<close> exactly once,
  and \<open>p\<close> is the parent of \<open>c\<close>. An unshielded \<open>c\<close> is then cancelled; a shielded \<open>c\<close>
  refuses the cancellation and keeps the flag it had.
\<close>

theorem enter_under_cancelled_parent:
  assumes "scope_inv s" and "f_entered (heap s c) = None" and "current s = Some p"
    and "f_cancelled (heap s p)"
  shows "u_add_child (Suc n) (enter_begin s c) p c =
           (case u_cancel (Suc n) {p} (enter_begin s c) c p of
              None \<Rightarrow> None
            | Some (Raise e, t) \<Rightarrow> Some (Raise e, t)
            | Some (Return b, t) \<Rightarrow> Some (Return (), t)) \<and>
         (\<exists>res s'. enter (Suc n) s c = Some (res, s') \<and>
            (\<forall>x. f_children (heap s' x) = f_children (heap s x)) \<and>
            c \<notin> set (f_children (heap s' p)) \<and>
            trace s' = trace s @ [c] \<and>
            f_parent (heap s' c) = Some p \<and>
            (\<not> f_shield (heap s c) \<longrightarrow> cancelled s' c) \<and>
            (f_shield (heap s c) \<longrightarrow> cancelled s' c = cancelled s c))"
proof -
  let ?b = "enter_begin s c"
  from assms(1) have cs: "core s" by (simp add: scope_inv_def)
  note u = core_unentered[OF cs assms(2)]
  have par: "f_parent (heap ?b c) = Some p" using assms(3) by simp
  have cp: "c \<noteq> p" using u(5) assms(3) by auto
  have cpb: "f_cancelled (heap ?b p)" using assms(4) by simp
  have eq: "u_add_child (Suc n) ?b p c =
           (case u_cancel (Suc n) {p} ?b c p of
              None \<Rightarrow> None
            | Some (Raise e, t) \<Rightarrow> Some (Raise e, t)
            | Some (Return b, t) \<Rightarrow> Some (Return (), t))"
    using cp cpb by (simp add: u_add_child_def del: u_cancel.simps)
  define s1 where "s1 = (if f_cancelled (heap ?b c) \<or> f_shield (heap ?b c)
      then ?b\<lparr>trace := trace ?b @ [c]\<rparr>
      else upd c (\<lambda>sc. sc\<lparr>f_cancelled := True\<rparr>) (?b\<lparr>trace := trace ?b @ [c]\<rparr>))"
  have leaf: "\<exists>b. u_cancel (Suc n) {p} ?b c p = Some (Return b, s1)"
    using u_cancel_leaf[of ?b c "{p}" n p] u(1) cp par
    by (auto simp: s1_def)
  then have ac: "u_add_child (Suc n) ?b p c = Some (Return (), s1)"
    unfolding eq by auto
  have h1: "\<And>x. x \<noteq> c \<Longrightarrow> heap s1 x = heap s x" "f_children (heap s1 c) = []"
    "trace s1 = trace s @ [c]"
    "f_cancelled (heap s1 c) = (f_cancelled (heap s c) \<or> \<not> f_shield (heap s c))"
    using u(1) by (auto simp: s1_def)
  from enter_link_total[OF ac par] obtain r4 s4 where lk: "enter_link (Suc n) ?b c = Some (r4, s4)"
    by blast
  from enter_link_inv(1)[OF assms(1,2) lk] have r4: "r4 = Return ()" .
  from lk par have h4: "(\<forall>x. x \<noteq> c \<longrightarrow> heap s4 x = heap s1 x) \<and>
      f_children (heap s4 c) = [] \<and> f_cancelled (heap s4 c) = f_cancelled (heap s1 c) \<and>
      f_parent (heap s4 c) = Some p \<and> trace s4 = trace s1"
  proof (cases rule: enter_link_shape)
    case (add_child_raised e)
    with ac show ?thesis by simp
  next
    case (timeout_raised s1' ex)
    with r4 show ?thesis by simp
  next
    case (linked s1' ex tm)
    with ac have "s1' = s1" by simp
    moreover have "f_parent (heap s1 c) = Some p" using par by (simp add: s1_def)
    ultimately show ?thesis using linked h1 by simp
  qed
  obtain res s' where fi: "enter_finish s4 c = (res, s')" by (cases "enter_finish s4 c")
  note fe = enter_finish_effect[OF fi]
  from fe obtain d k where hc: "heap s' c = (heap s4 c)\<lparr>f_deadline := d, f_token := k\<rparr>" by blast
  have en: "enter (Suc n) s c = Some (res, s')"
    using assms(2) lk r4 fi unfolding enter_alt by simp
  have ch: "f_children (heap s' x) = f_children (heap s x)" for x
  proof (cases "x = c")
    case True
    with hc h4 u(1) show ?thesis by simp
  next
    case False
    with fe h4 h1(1) show ?thesis by simp
  qed
  have "c \<notin> set (f_children (heap s' p))" using ch u(3) by simp
  moreover have "trace s' = trace s @ [c]" using fe h4 h1 by simp
  moreover have "f_parent (heap s' c) = Some p" using hc h4 by simp
  moreover have "f_cancelled (heap s' c) = (f_cancelled (heap s c) \<or> \<not> f_shield (heap s c))"
    using hc h4 h1 by simp
  ultimately have "(\<forall>x. f_children (heap s' x) = f_children (heap s x)) \<and>
            c \<notin> set (f_children (heap s' p)) \<and>
            trace s' = trace s @ [c] \<and>
            f_parent (heap s' c) = Some p \<and>
            (\<not> f_shield (heap s c) \<longrightarrow> cancelled s' c) \<and>
            (f_shield (heap s c) \<longrightarrow> cancelled s' c = cancelled s c)"
    using ch by (simp add: cancelled_def)
  with en eq show ?thesis by blast
qed

theorem enter_under_cancelled_parent_witness:
  "scope_inv dead_root \<and> f_entered (heap dead_root 1) = None \<and> current dead_root = Some 0 \<and>
   f_cancelled (heap dead_root 0) \<and> \<not> f_shield (heap dead_root 1) \<and>
   (\<exists>res s'. enter (Suc 0) dead_root 1 = Some (res, s') \<and>
       1 \<notin> set (f_children (heap s' 0)) \<and> cancelled s' 1)"
proof -
  have r: "run 1 (start (\<lambda>_. plain) clock0) [Enter 0, Cancel 0] = Some dead_root"
    by (simp add: ev5)
  have a: "scope_inv dead_root" by (rule reachable_inv[OF _ r]) simp
  have b: "f_entered (heap dead_root 1) = None" "current dead_root = Some 0"
    "f_cancelled (heap dead_root 0)" "\<not> f_shield (heap dead_root 1)"
    by (simp_all add: ev5)
  from enter_under_cancelled_parent[OF a b(1,2,3), of 0] b(4)
  have "\<exists>res s'. enter (Suc 0) dead_root 1 = Some (res, s') \<and>
       1 \<notin> set (f_children (heap s' 0)) \<and> cancelled s' 1"
    by blast
  with a b show ?thesis by blast
qed

subsection \<open>The exception that a check raises\<close>

lemma settled_refl: "settled s s"
  by (simp add: settled_def)

lemma settled_trans: "settled s t \<Longrightarrow> settled t u \<Longrightarrow> settled s u"
  unfolding settled_def by (metis)

lemma enter_settled:
  assumes "enter n s c = Some (res, s')"
  shows "settled s s'"
proof (cases "f_entered (heap s c)")
  case (Some t)
  with assms show ?thesis by (simp add: enter_def settled_refl)
next
  case None
  have b: "f_exc (heap (enter_begin s c) x) = f_exc (heap s x) \<and>
      f_timeout (heap (enter_begin s c) x) = f_timeout (heap s x) \<and>
      f_deadline (heap (enter_begin s c) x) = f_deadline (heap s x) \<and>
      f_parent (heap (enter_begin s c) x) = f_parent (heap s x) \<and>
      f_entered (heap (enter_begin s c) x) = f_entered (heap s x)" if "x \<noteq> c" for x
    using that by simp
  from None assms show ?thesis
  proof (cases rule: enter_unfold)
    case (1 e)
    from enter_link_linked[OF 1(1)] b None show ?thesis
      unfolding settled_def linked_def by (metis)
  next
    case (2 u s4)
    from enter_finish_effect[OF 2(2)] have "\<And>x. x \<noteq> c \<Longrightarrow> heap s' x = heap s4 x" by simp
    with enter_link_linked[OF 2(1)] b None show ?thesis
      unfolding settled_def linked_def by (metis)
  qed
qed

lemma exit_settled: "exit s c b = (r, s') \<Longrightarrow> settled s s'"
  unfolding exit_def
  by (auto split: option.splits if_splits simp: settled_def upd_def Let_def dest!: check_heap)

lemma exec_settled: "exec n s c = Some s' \<Longrightarrow> settled s s'"
proof (cases c)
  case (Enter x)
  then show "exec n s c = Some s' \<Longrightarrow> settled s s'" by (auto dest: enter_settled)
next
  case (Exit x b)
  then show "exec n s c = Some s' \<Longrightarrow> settled s s'"
    by (cases "exit s x b") (auto dest: exit_settled)
next
  case (Cancel x)
  then show "exec n s c = Some s' \<Longrightarrow> settled s s'"
    by (auto simp: cancel_def settled_def only_cancels_def same_config_def
        dest!: u_cancel_only_cancels)
next
  case (Cancelled x)
  then show "exec n s c = Some s' \<Longrightarrow> settled s s'" by (auto simp: settled_refl)
next
  case (RemainingTimeout x)
  then show "exec n s c = Some s' \<Longrightarrow> settled s s'"
    by (cases "timeout s x") (auto dest!: timeout_heap simp: settled_def)
next
  case (Check x)
  then show "exec n s c = Some s' \<Longrightarrow> settled s s'"
    by (cases "check s x") (auto dest!: check_heap simp: settled_def)
qed

lemma run_settled: "run n s cs = Some s' \<Longrightarrow> settled s s'"
proof (induction cs arbitrary: s)
  case Nil
  then show ?case by (simp add: settled_refl)
next
  case (Cons c cs)
  then show ?case by (auto split: option.splits dest: exec_settled intro: settled_trans)
qed

lemma nearest_exc_inv: "scope_inv s \<Longrightarrow> nearest_exc n (heap s) c = f_exc (heap s c)"
proof (induction n arbitrary: c)
  case 0
  then show ?case by simp
next
  case (Suc n)
  from Suc.prems have l: "lawful (heap s) c" by (simp add: scope_inv_def)
  show ?case
  proof (cases "f_exc (heap s c)")
    case (Some k)
    then show ?thesis by simp
  next
    case None
    show ?thesis
    proof (cases "f_parent (heap s c)")
      case np: None
      with None show ?thesis by simp
    next
      case (Some p)
      with None l have "f_exc (heap s p) = None" by (simp add: lawful_def)
      with None Some Suc.IH[OF Suc.prems, of p] show ?thesis by simp
    qed
  qed
qed

lemma timeout_returns:
  assumes "scope_inv s"
  shows "\<exists>v. fst (timeout s c) = Return v"
proof -
  from assms have "lawful (heap s) c" by (simp add: scope_inv_def)
  from timeout_no_raise[OF this] show ?thesis by (cases "fst (timeout s c)") auto
qed

lemma check_outcome:
  assumes "fst (timeout s c) = Return v"
  shows "fst (check s c) = (if f_gt0 v then Return () else Raise (raised_kind (f_exc (heap s c))))"
proof -
  obtain s1 where t: "timeout s c = (Return v, s1)" using assms by (cases "timeout s c") simp
  from timeout_heap[OF t] have "heap s1 = heap s" by simp
  with t show ?thesis by (simp add: check_def raised_kind_def split: option.splits)
qed

lemma enter_exc:
  assumes "scope_inv s" "f_entered (heap s c) = None" "enter m s c = Some (res, s')"
  shows "f_exc (heap s' c) =
     (case f_exc (heap s c) of Some k \<Rightarrow> Some k
      | None \<Rightarrow> (case current s of None \<Rightarrow> None | Some p \<Rightarrow> f_exc (heap s p)))"
  using assms(2,3)
proof (cases rule: enter_unfold)
  case (1 e)
  from enter_link_inv(1)[OF assms(1,2) 1(1)] show ?thesis by simp
next
  case (2 u s4)
  note v = enter_values[OF assms(2) 2]
  show ?thesis
  proof (cases "current s")
    case None
    with v(4) show ?thesis by (simp split: option.splits)
  next
    case (Some p)
    with v(5)[OF Some] show ?thesis by (simp split: option.splits)
  qed
qed

text \<open>
  C7. In a reachable state \<open>check\<close> returns when the remaining timeout is positive and
  otherwise raises the nearest exception on the way to the root, \<open>CancelledError\<close> when
  there is none. Entering gives a scope its own exception, or else the nearest one of
  the scope it is entered under. In particular a scope without exception, entered under
  a parent with exception \<open>k\<close>, raises \<open>k\<close> from every later check that finds no
  remaining timeout, as after the parent was cancelled.
\<close>

theorem check_raises_nearest_kind:
  assumes "scope_inv s"
  shows "(\<exists>v. fst (timeout s c) = Return v \<and>
            fst (check s c) = (if f_gt0 v then Return ()
                               else Raise (raised_kind (nearest_exc n (heap s) c)))) \<and>
         (\<forall>m res s'. f_entered (heap s c) = None \<longrightarrow> enter m s c = Some (res, s') \<longrightarrow>
            nearest_exc (Suc n) (heap s') c =
              (case f_exc (heap s c) of Some k \<Rightarrow> Some k
               | None \<Rightarrow> (case current s of None \<Rightarrow> None
                          | Some p \<Rightarrow> nearest_exc n (heap s) p))) \<and>
         (\<forall>m res s1 l cs s2 p k v.
            f_entered (heap s c) = None \<longrightarrow> f_exc (heap s c) = None \<longrightarrow>
            current s = Some p \<longrightarrow> f_exc (heap s p) = Some k \<longrightarrow>
            enter m s c = Some (res, s1) \<longrightarrow> run l s1 cs = Some s2 \<longrightarrow>
            fst (timeout s2 c) = Return v \<longrightarrow> \<not> f_gt0 v \<longrightarrow>
            fst (check s2 c) = Raise (UserExc k))"
proof (intro conjI allI impI)
  from timeout_returns[OF assms] obtain v where v: "fst (timeout s c) = Return v" ..
  from check_outcome[OF v] nearest_exc_inv[OF assms] v
  show "\<exists>v. fst (timeout s c) = Return v \<and>
            fst (check s c) = (if f_gt0 v then Return ()
                               else Raise (raised_kind (nearest_exc n (heap s) c)))"
    by auto
next
  fix m res s'
  assume a: "f_entered (heap s c) = None" "enter m s c = Some (res, s')"
  from enter_inv[OF assms a(2)] have i': "scope_inv s'" .
  show "nearest_exc (Suc n) (heap s') c =
              (case f_exc (heap s c) of Some k \<Rightarrow> Some k
               | None \<Rightarrow> (case current s of None \<Rightarrow> None
                          | Some p \<Rightarrow> nearest_exc n (heap s) p))"
    unfolding nearest_exc_inv[OF i'] nearest_exc_inv[OF assms]
    by (rule enter_exc[OF assms a])
next
  fix m res s1 l cs s2 p k v
  assume a: "f_entered (heap s c) = None" "f_exc (heap s c) = None" "current s = Some p"
    "f_exc (heap s p) = Some k" "enter m s c = Some (res, s1)" "run l s1 cs = Some s2"
    "fst (timeout s2 c) = Return v" "\<not> f_gt0 v"
  from enter_exc[OF assms a(1,5)] a(2,3,4) have e1: "f_exc (heap s1 c) = Some k" by simp
  from enter_marks[OF a(5)] have "f_entered (heap s1 c) \<noteq> None" by auto
  with run_settled[OF a(6)] e1 have "f_exc (heap s2 c) = Some k" by (simp add: settled_def)
  with check_outcome[OF a(7)] a(8) show "fst (check s2 c) = Raise (UserExc k)"
    by (simp add: raised_kind_def)
qed

theorem check_raises_nearest_kind_witness:
  "scope_inv custom_running \<and>
   f_entered (heap custom_running 1) = None \<and> f_exc (heap custom_running 1) = None \<and>
   current custom_running = Some 0 \<and> f_exc (heap custom_running 0) = Some 7 \<and>
   enter 1 custom_running 1 = Some (Return 1, snd (the (enter 1 custom_running 1))) \<and>
   run 2 (snd (the (enter 1 custom_running 1))) [Cancel 0]
     = Some (the (run 2 (snd (the (enter 1 custom_running 1))) [Cancel 0])) \<and>
   fst (timeout (the (run 2 (snd (the (enter 1 custom_running 1))) [Cancel 0])) 1) = Return (Fin 0) \<and>
   \<not> f_gt0 (Fin 0) \<and>
   fst (check (the (run 2 (snd (the (enter 1 custom_running 1))) [Cancel 0])) 1) = Raise (UserExc 7)"
proof -
  let ?s1 = "snd (the (enter 1 custom_running 1))"
  let ?s2 = "the (run 2 ?s1 [Cancel 0])"
  have r: "run 1 (start custom_parent clock0) [Enter 0] = Some custom_running"
    by (simp add: ev5)
  have i: "scope_inv custom_running"
    by (rule reachable_inv[OF _ r]) (simp add: custom_parent_def)
  have a: "f_entered (heap custom_running 1) = None" "f_exc (heap custom_running 1) = None"
    "current custom_running = Some 0" "f_exc (heap custom_running 0) = Some 7"
    "enter 1 custom_running 1 = Some (Return 1, ?s1)"
    "run 2 ?s1 [Cancel 0] = Some ?s2"
    "fst (timeout ?s2 1) = Return (Fin 0)" "\<not> f_gt0 (Fin 0)"
    by (simp_all add: ev5)
  from check_raises_nearest_kind[OF i, of 1 0] a
  have "fst (check ?s2 1) = Raise (UserExc 7)" by blast
  with i a show ?thesis by blast
qed

subsection \<open>The remaining timeout\<close>

lemma chain_head: "c \<in> set (chain n h c)"
  by (cases n) simp_all

lemma chain_unbounded:
  assumes "scope_inv s"
  shows "eff (f_timeout (heap s c)) = PInf \<Longrightarrow>
         \<forall>x \<in> set (chain n (heap s) c). eff (f_timeout (heap s x)) = PInf"
proof (induction n arbitrary: c)
  case 0
  then show ?case by simp
next
  case (Suc n)
  from assms have l: "lawful (heap s) c" by (simp add: scope_inv_def)
  show ?case
  proof (cases "f_shield (heap s c)")
    case True
    with Suc.prems show ?thesis by simp
  next
    case False
    show ?thesis
    proof (cases "f_parent (heap s c)")
      case None
      with False Suc.prems show ?thesis by simp
    next
      case (Some p)
      with l False Suc.prems have "eff (f_timeout (heap s p)) = PInf" by (simp add: lawful_def)
      from Suc.IH[OF this] Some False Suc.prems show ?thesis by simp
    qed
  qed
qed

lemma f_le0_deadline:
  "f_le0 (f_sub (f_add e t) now) \<longleftrightarrow> (\<exists>d. f_add e t = Fin d \<and> d \<le> now)"
  by (cases t) auto

lemma timeout_zero_iff:
  assumes "lawful (heap s) c"
  shows "fst (timeout s c) = Return (Fin 0) \<longleftrightarrow>
     f_cancelled (heap s c) \<or>
     (\<exists>d. f_deadline (heap s c) = Some (Fin d) \<and> d \<le> clock s (ticks s)) \<or>
     (f_entered (heap s c) = None \<and> f_timeout (heap s c) = Some (Fin 0))"
proof (cases "f_cancelled (heap s c)")
  case True
  then show ?thesis by (simp add: timeout_def)
next
  case nc: False
  show ?thesis
  proof (cases "f_timeout (heap s c)")
    case None
    with assms have "f_deadline (heap s c) = None" by (simp add: lawful_def)
    with nc None show ?thesis by (simp add: timeout_def)
  next
    case (Some t)
    show ?thesis
    proof (cases "f_entered (heap s c)")
      case None
      with assms have "f_deadline (heap s c) = None" by (simp add: lawful_def)
      with nc Some None show ?thesis by (simp add: timeout_def)
    next
      case e: (Some e)
      with assms Some have d: "f_deadline (heap s c) = Some (f_add e t)" by (simp add: lawful_def)
      have "fst (timeout s c) = Return (Fin 0) \<longleftrightarrow> f_le0 (f_sub (f_add e t) (clock s (ticks s)))"
        using nc Some e d by (cases "f_sub (f_add e t) (clock s (ticks s))")
          (auto simp: timeout_def time_def Let_def)
      then show ?thesis using nc e d by (simp add: f_le0_deadline)
    qed
  qed
qed

lemma timeout_PInf_iff:
  assumes "lawful (heap s) c"
  shows "fst (timeout s c) = Return PInf \<longleftrightarrow>
     \<not> f_cancelled (heap s c) \<and> eff (f_timeout (heap s c)) = PInf"
proof (cases "f_cancelled (heap s c)")
  case True
  then show ?thesis by (simp add: timeout_def)
next
  case nc: False
  show ?thesis
  proof (cases "f_timeout (heap s c)")
    case None
    with nc show ?thesis by (simp add: timeout_def)
  next
    case (Some t)
    show ?thesis
    proof (cases "f_entered (heap s c)")
      case None
      with nc Some show ?thesis by (simp add: timeout_def)
    next
      case e: (Some e)
      with assms Some have d: "f_deadline (heap s c) = Some (f_add e t)" by (simp add: lawful_def)
      show ?thesis using nc Some e d
        by (cases t) (auto simp: timeout_def time_def Let_def)
    qed
  qed
qed

text \<open>
  C4, as amended. In a reachable state \<open>timeout()\<close> returns exactly 0 if and only if the
  scope is cancelled, or the clock is at or past its deadline, or the scope has not been
  entered and was constructed with the timeout 0; and it returns \<open>+inf\<close> if and only if
  the scope is not cancelled and no scope of its effective ancestry chain has a finite
  timeout.
\<close>

theorem remaining_timeout_zero_and_infinite:
  assumes "scope_inv s"
  shows "(fst (timeout s c) = Return (Fin 0) \<longleftrightarrow>
            f_cancelled (heap s c) \<or>
            (\<exists>d. f_deadline (heap s c) = Some (Fin d) \<and> d \<le> clock s (ticks s)) \<or>
            (f_entered (heap s c) = None \<and> f_timeout (heap s c) = Some (Fin 0))) \<and>
         (fst (timeout s c) = Return PInf \<longleftrightarrow>
            \<not> f_cancelled (heap s c) \<and>
            (\<forall>x \<in> set (chain n (heap s) c). eff (f_timeout (heap s x)) = PInf))"
proof -
  from assms have l: "lawful (heap s) c" by (simp add: scope_inv_def)
  have "(\<forall>x \<in> set (chain n (heap s) c). eff (f_timeout (heap s x)) = PInf)
        \<longleftrightarrow> eff (f_timeout (heap s c)) = PInf"
    using chain_unbounded[OF assms, of c n] chain_head[of c n "heap s"] by blast
  with timeout_zero_iff[OF l] timeout_PInf_iff[OF l] show ?thesis by simp
qed

theorem remaining_timeout_zero_and_infinite_witness:
  "scope_inv S1_before \<and>
   f_deadline (heap S1_before 0) = Some (Fin 5) \<and> \<not> 5 \<le> clock S1_before (ticks S1_before) \<and>
   \<not> f_cancelled (heap S1_before 0) \<and> f_entered (heap S1_before 0) \<noteq> None \<and>
   fst (timeout S1_before 0) \<noteq> Return (Fin 0) \<and>
   0 \<in> set (chain 3 (heap S1_before) 0) \<and>
   fst (timeout S1_before 0) \<noteq> Return PInf"
proof -
  have r: "run 1 (start two_timeouts clock01) [Enter 0] = Some S1_before"
    by (simp add: ev5)
  have i: "scope_inv S1_before"
    by (rule reachable_inv[OF _ r]) (simp add: two_timeouts_def)
  have a: "f_deadline (heap S1_before 0) = Some (Fin 5)" "\<not> 5 \<le> clock S1_before (ticks S1_before)"
    "\<not> f_cancelled (heap S1_before 0)" "f_entered (heap S1_before 0) \<noteq> None"
    "eff (f_timeout (heap S1_before 0)) \<noteq> PInf"
    by (simp_all add: ev5)
  have h: "0 \<in> set (chain 3 (heap S1_before) 0)" by (rule chain_head)
  note t = remaining_timeout_zero_and_infinite[OF i, of 0 3]
  from t a have z: "fst (timeout S1_before 0) \<noteq> Return (Fin 0)" by auto
  from t a h have p: "fst (timeout S1_before 0) \<noteq> Return PInf" by blast
  show ?thesis
    by (intro conjI) (rule i a(1,2,3,4) z h p)+
qed

text \<open>
  C4 as stated fails twice: a cancelled scope with no timeout anywhere in its chain
  reports 0, not \<open>+inf\<close>; and a scope constructed with timeout 0 and not yet entered
  reports 0 though it is neither cancelled nor past a deadline.
\<close>

theorem remaining_timeout_counterexample:
  "f_cancelled (heap dead_root 0) \<and> chain 3 (heap dead_root) 0 = [0] \<and>
   f_timeout (heap dead_root 0) = None \<and>
   fst (timeout dead_root 0) = Return (Fin 0) \<and>
   f_entered (heap (start zero_timeouts clock0) 0) = None \<and>
   \<not> f_cancelled (heap (start zero_timeouts clock0) 0) \<and>
   f_deadline (heap (start zero_timeouts clock0) 0) = None \<and>
   fst (timeout (start zero_timeouts clock0) 0) = Return (Fin 0)"
  by (simp add: ev5 numeral_3_eq_3)

subsection \<open>The sweep of \<open>cancel\<close>\<close>

text \<open>
  In a forest the subtrees of two children of a scope share nothing, and the scope is in
  neither.
\<close>

lemma wf_forest: "wf_heap h \<Longrightarrow> forest h"
  by (simp add: wf_heap_def forest_def)

lemma forest_child: "forest h \<Longrightarrow> c \<in> set (f_children (h p)) \<Longrightarrow> f_parent (h c) = Some p"
  unfolding forest_def by blast

lemma forest_distinct: "forest h \<Longrightarrow> distinct (f_children (h p))"
  unfolding forest_def by blast

lemma forest_acyclic: "forest h \<Longrightarrow> \<not> desc h x x"
  unfolding forest_def using depth_acyclic by blast

lemma desc_first: "desc h s x \<Longrightarrow> \<exists>c \<in> set (f_children (h s)). x = c \<or> desc h c x"
proof (induction rule: desc.induct)
  case (child c)
  then show ?case by blast
next
  case (step x c)
  then obtain a where a: "a \<in> set (f_children (h s))" "x = a \<or> desc h a x" by blast
  from a(2) have "desc h a c"
  proof
    assume "x = a"
    with step.hyps(2) show ?thesis by (simp add: desc.child)
  next
    assume "desc h a x"
    then show ?thesis using step.hyps(2) by (rule desc.step)
  qed
  with a(1) show ?case by blast
qed

lemma sub_child: "c \<in> set (f_children (h p)) \<Longrightarrow> sub h c \<subseteq> sub h p"
  unfolding sub_def using desc.child desc_trans by blast

lemma sub_child_mem: "c \<in> set (f_children (h p)) \<Longrightarrow> c \<in> sub h p"
  unfolding sub_def using desc.child by blast

lemma sub_self [simp]: "c \<in> sub h c"
  by (simp add: sub_def)

lemma desc_parent:
  "desc h s x \<Longrightarrow> forest h \<Longrightarrow> \<exists>p. f_parent (h x) = Some p \<and> p \<in> sub h s"
proof (induction rule: desc.induct)
  case (child c)
  then show ?case by (auto simp: sub_def dest: forest_child)
next
  case (step x c)
  then show ?case by (auto simp: sub_def dest: forest_child)
qed

lemma parent_not_below:
  assumes "forest h" "c \<in> set (f_children (h p))"
  shows "p \<notin> sub h c"
proof
  assume "p \<in> sub h c"
  then have "p = c \<or> desc h c p" by (simp add: sub_def)
  then show False
  proof
    assume "p = c"
    with assms(2) have "desc h p p" by (auto intro: desc.child)
    with assms(1) show False by (simp add: forest_acyclic)
  next
    assume "desc h c p"
    moreover have "desc h p c" using assms(2) by (rule desc.child)
    ultimately have "desc h p p" by (rule desc_trans)
    with assms(1) show False by (simp add: forest_acyclic)
  qed
qed

lemma sibling_not_below:
  assumes f: "forest h" and c1: "c1 \<in> set (f_children (h p))" and c2: "c2 \<in> set (f_children (h p))"
    and ne: "c1 \<noteq> c2"
  shows "c1 \<notin> sub h c2"
proof
  assume "c1 \<in> sub h c2"
  with ne have "desc h c2 c1" by (simp add: sub_def)
  from desc_parent[OF this f] obtain q where "f_parent (h c1) = Some q" "q \<in> sub h c2" by blast
  moreover have "f_parent (h c1) = Some p" using f c1 by (rule forest_child)
  ultimately have "p \<in> sub h c2" by simp
  with parent_not_below[OF f c2] show False by simp
qed

lemma siblings_disjoint:
  assumes f: "forest h" and c1: "c1 \<in> set (f_children (h p))" and c2: "c2 \<in> set (f_children (h p))"
    and ne: "c1 \<noteq> c2"
  shows "sub h c1 \<inter> sub h c2 = {}"
proof -
  have "x \<notin> sub h c2" if "desc h c1 x" for x
    using that
  proof (induction rule: desc.induct)
    case (child c)
    show ?case
    proof
      assume "c \<in> sub h c2"
      then have "c = c2 \<or> desc h c2 c" by (simp add: sub_def)
      then show False
      proof
        assume "c = c2"
        with child f have "f_parent (h c2) = Some c1" by (simp add: forest_child)
        moreover have "f_parent (h c2) = Some p" using f c2 by (rule forest_child)
        ultimately have "p = c1" by simp
        with c1 have "desc h p p" by (auto intro: desc.child)
        with f show False by (simp add: forest_acyclic)
      next
        assume "desc h c2 c"
        from desc_parent[OF this f] obtain q where "f_parent (h c) = Some q" "q \<in> sub h c2" by blast
        moreover have "f_parent (h c) = Some c1" using f child by (simp add: forest_child)
        ultimately have "c1 \<in> sub h c2" by simp
        with sibling_not_below[OF f c1 c2 ne] show False by simp
      qed
    qed
  next
    case (step x c)
    show ?case
    proof
      assume "c \<in> sub h c2"
      then have "c = c2 \<or> desc h c2 c" by (simp add: sub_def)
      then show False
      proof
        assume "c = c2"
        with step f have "f_parent (h c2) = Some x" by (simp add: forest_child)
        moreover have "f_parent (h c2) = Some p" using f c2 by (rule forest_child)
        ultimately have "x = p" by simp
        with step.hyps(1) have "p \<in> sub h c1" by (simp add: sub_def)
        with parent_not_below[OF f c1] show False by simp
      next
        assume "desc h c2 c"
        from desc_parent[OF this f] obtain q where "f_parent (h c) = Some q" "q \<in> sub h c2" by blast
        moreover have "f_parent (h c) = Some x" using f step by (simp add: forest_child)
        ultimately have "x \<in> sub h c2" by simp
        with step.IH show False by simp
      qed
    qed
  qed
  moreover have "c1 \<notin> sub h c2" using sibling_not_below[OF f c1 c2 ne] .
  ultimately show ?thesis by (auto simp: sub_def)
qed

text \<open>
  A returned \<open>_cancel\<close> has done to the heap exactly what \<open>newly\<close> says, by calls of
  \<open>_cancel\<close> in the order \<open>sweep_order\<close> gives: the calls made for one child leave the
  subtrees of the children still to come as they were.
\<close>

lemma forest_only_cancels: "only_cancels s s' \<Longrightarrow> forest (heap s) \<Longrightarrow> forest (heap s')"
proof -
  assume oc: "only_cancels s s'" and f: "forest (heap s)"
  from oc have sh: "shrinks (heap s) (heap s')" by (rule only_cancels_shrinks)
  from oc have par: "\<And>x. f_parent (heap s' x) = f_parent (heap s x)"
    and sub: "\<And>x. subseq (f_children (heap s' x)) (f_children (heap s x))"
    by (simp_all add: only_cancels_def same_config_def)
  from f obtain d where d: "\<forall>x. depth_le d (heap s) x" unfolding forest_def by blast
  have "\<forall>x. depth_le d (heap s') x" using d depth_le_shrinks[OF sh] by blast
  moreover have "\<forall>p c. c \<in> set (f_children (heap s' p)) \<longrightarrow> f_parent (heap s' c) = Some p"
    using subseq_set[OF sub] forest_child[OF f] par by (metis subsetD)
  moreover have "\<forall>p. distinct (f_children (heap s' p))"
    using subseq_distinct[OF sub] forest_distinct[OF f] by blast
  ultimately show ?thesis unfolding forest_def by blast
qed

lemma newly_sub: "newly n h x origin \<subseteq> sub h x"
proof (induction n arbitrary: x origin)
  case 0
  then show ?case by simp
next
  case (Suc n)
  have "newly n h c x \<subseteq> sub h x" if "c \<in> set (f_children (h x))" for c
  proof -
    have "sub h c \<subseteq> sub h x" using that by (rule sub_child)
    with Suc.IH[of c x] show ?thesis by blast
  qed
  then show ?case by auto
qed

lemma newly_cong:
  "(\<And>y. y \<in> sub h x \<Longrightarrow> h' y = h y) \<Longrightarrow> newly n h' x origin = newly n h x origin"
proof (induction n arbitrary: x origin)
  case 0
  then show ?case by simp
next
  case (Suc n)
  have hx: "h' x = h x" using Suc.prems by simp
  have "newly n h' c x = newly n h c x" if "c \<in> set (f_children (h x))" for c
  proof (rule Suc.IH)
    fix y assume "y \<in> sub h c"
    moreover have "sub h c \<subseteq> sub h x" using that by (rule sub_child)
    ultimately have "y \<in> sub h x" by blast
    then show "h' y = h y" by (rule Suc.prems)
  qed
  then show ?case by (simp add: hx)
qed

lemma sweep_order_cong:
  "(\<And>y. y \<in> sub h x \<Longrightarrow> h' y = h y) \<Longrightarrow> sweep_order n h' x origin = sweep_order n h x origin"
proof (induction n arbitrary: x origin)
  case 0
  then show ?case by simp
next
  case (Suc n)
  have hx: "h' x = h x" using Suc.prems by simp
  have "sweep_order n h' c x = sweep_order n h c x" if "c \<in> set (f_children (h x))" for c
  proof (rule Suc.IH)
    fix y assume "y \<in> sub h c"
    moreover have "sub h c \<subseteq> sub h x" using that by (rule sub_child)
    ultimately have "y \<in> sub h x" by blast
    then show "h' y = h y" by (rule Suc.prems)
  qed
  then have "map (\<lambda>c. sweep_order n h' c x) (rev (f_children (h x)))
           = map (\<lambda>c. sweep_order n h c x) (rev (f_children (h x)))"
    by (intro map_cong refl) simp
  then show ?case by (simp only: sweep_order.simps hx)
qed

lemma swept_in: "x \<in> T \<Longrightarrow> swept h T x = (h x)\<lparr>f_cancelled := True, f_children := []\<rparr>"
  by (simp add: swept_def)

lemma swept_out: "x \<notin> T \<Longrightarrow> swept h T x = h x"
  by (simp add: swept_def)

lemma swept_empty [simp]: "swept h {} = h"
  by (simp add: swept_def)

lemma cancel_loop_exact_aux:
  assumes IH: "\<And>held s self cs r s'. u_cancel n held s self cs = Some (r, s') \<Longrightarrow>
            forest (heap s) \<Longrightarrow>
            heap s' = swept (heap s) (newly n (heap s) self cs) \<and>
            trace s' = trace s @ sweep_order n (heap s) self cs"
  shows "cancel_loop n held t self (rev (enumerate 0 ys)) = Some (r, t') \<Longrightarrow>
         forest (heap t) \<Longrightarrow> f_children (heap t self) = ys \<Longrightarrow>
         heap t' = (swept (heap t) (\<Union>c \<in> set ys. newly n (heap t) c self))
                     (self := (heap t self)\<lparr>f_children := []\<rparr>) \<and>
         trace t' = trace t @ concat (map (\<lambda>c. sweep_order n (heap t) c self) (rev ys))"
proof (induction ys arbitrary: t rule: rev_induct)
  case Nil
  then show ?case by (auto simp: fun_eq_iff)
next
  case (snoc c ys)
  let ?h = "heap t"
  have cin: "c \<in> set (f_children (?h self))" using snoc.prems(3) by simp
  have f: "forest ?h" by fact
  have selfc: "self \<notin> sub ?h c" using f cin by (rule parent_not_below)
  from snoc.prems(1) have l: "cancel_loop n held t self ((length ys, c) # rev (enumerate 0 ys)) = Some (r, t')"
    by (simp add: rev_enumerate_snoc)
  have nested: "heap s1 = swept ?h (newly n ?h c self) \<and> trace s1 = trace t @ sweep_order n ?h c self
                \<and> only_cancels t s1"
    if "u_cancel n held t c self = Some (r1, s1)" for r1 s1
    using IH[OF that f] u_cancel_only_cancels[OF that] by simp
  have selfn: "self \<notin> newly n ?h c self" using selfc newly_sub by blast
  from l show ?case
  proof (cases rule: cancel_loop_Cons_cases)
    case (raised e)
    with u_cancel_tidy[OF raised(1)] show ?thesis by simp
  next
    case (index b)
    from nested[OF index(1)] have "heap t' self = ?h self" using selfn by (simp add: swept_out)
    with index(2) snoc.prems(3) show ?thesis by simp
  next
    case (continue b s1)
    from nested[OF continue(1)] have h1: "heap s1 = swept ?h (newly n ?h c self)"
      and tr1: "trace s1 = trace t @ sweep_order n ?h c self" and oc1: "only_cancels t s1" by simp_all
    have s1self: "heap s1 self = ?h self" using h1 selfn by (simp add: swept_out)
    let ?s2 = "upd self (\<lambda>sc. sc\<lparr>f_children := del_at (length ys) (f_children sc)\<rparr>) s1"
    have oc2: "only_cancels t ?s2" using oc1 only_cancels_del by (rule only_cancels_trans)
    have f2: "forest (heap ?s2)" using oc2 f by (rule forest_only_cancels)
    have c2: "f_children (heap ?s2 self) = ys" using s1self snoc.prems(3) by simp
    note ih = snoc.IH[OF continue(3) f2 c2]
    have r1: "heap t' = (swept (heap ?s2) (\<Union>c \<in> set ys. newly n (heap ?s2) c self))
                     (self := (heap ?s2 self)\<lparr>f_children := []\<rparr>)"
      using ih by (rule conjunct1)
    have r2: "trace t' = trace ?s2 @ concat (map (\<lambda>c. sweep_order n (heap ?s2) c self) (rev ys))"
      using ih by (rule conjunct2)
    have dist: "distinct (ys @ [c])" using forest_distinct[OF f, of self] snoc.prems(3) by simp
    have agree: "heap ?s2 y = ?h y" if "c' \<in> set ys" "y \<in> sub ?h c'" for c' y
    proof -
      have c'in: "c' \<in> set (f_children (?h self))" using that(1) snoc.prems(3) by simp
      have "c' \<noteq> c" using dist that(1) by auto
      from siblings_disjoint[OF f c'in cin this] that(2) have "y \<notin> sub ?h c" by blast
      then have "y \<notin> newly n ?h c self" using newly_sub by blast
      moreover have "y \<noteq> self" using parent_not_below[OF f c'in] that(2) by blast
      ultimately show ?thesis by (simp add: h1 swept_out)
    qed
    have n2: "newly n (heap ?s2) c' self = newly n ?h c' self" if "c' \<in> set ys" for c'
      using agree[OF that] by (rule newly_cong)
    have o2: "sweep_order n (heap ?s2) c' self = sweep_order n ?h c' self" if "c' \<in> set ys" for c'
      using agree[OF that] by (rule sweep_order_cong)
    have U: "(\<Union>c \<in> set ys. newly n (heap ?s2) c self) = (\<Union>c \<in> set ys. newly n ?h c self)"
      using n2 by simp
    have M: "map (\<lambda>c. sweep_order n (heap ?s2) c self) (rev ys)
           = map (\<lambda>c. sweep_order n ?h c self) (rev ys)"
      by (intro map_cong refl) (simp add: o2)
    have tr: "trace t' = trace t @ concat (map (\<lambda>c. sweep_order n ?h c self) (rev (ys @ [c])))"
      using r2 tr1 by (simp add: M)
    have hp: "heap t' = (swept ?h (\<Union>c \<in> set (ys @ [c]). newly n ?h c self))
                     (self := (?h self)\<lparr>f_children := []\<rparr>)"
    proof (rule ext)
      fix x
      show "heap t' x = ((swept ?h (\<Union>c \<in> set (ys @ [c]). newly n ?h c self))
                     (self := (?h self)\<lparr>f_children := []\<rparr>)) x"
      proof (cases "x = self")
        case True
        then show ?thesis using r1 s1self by simp
      next
        case False
        then have "heap t' x = swept (heap s1) (\<Union>c \<in> set ys. newly n ?h c self) x"
          using r1 U by (simp add: swept_def)
        also have "\<dots> = swept ?h (\<Union>c \<in> set (ys @ [c]). newly n ?h c self) x"
          by (simp add: h1 swept_def)
        finally show ?thesis using False by simp
      qed
    qed
    from hp tr show ?thesis by simp
  qed
qed

lemma u_cancel_exact:
  "u_cancel n held s self cs = Some (r, s') \<Longrightarrow> forest (heap s) \<Longrightarrow>
     heap s' = swept (heap s) (newly n (heap s) self cs) \<and>
     trace s' = trace s @ sweep_order n (heap s) self cs"
proof (induction n arbitrary: held s self cs r s')
  case 0
  then show ?case by simp
next
  case (Suc n)
  from Suc.prems(1) show ?case
  proof (cases rule: u_cancel_Suc_cases)
    case already
    then show ?thesis by simp
  next
    case refused
    then show ?thesis by simp
  next
    case (swept r2)
    let ?h = "heap s"
    let ?t = "upd self (\<lambda>sc. sc\<lparr>f_cancelled := True\<rparr>) (s\<lparr>trace := trace s @ [self]\<rparr>)"
    have oc: "only_cancels s ?t"
      using only_cancels_trace only_cancels_set by (rule only_cancels_trans)
    have ft: "forest (heap ?t)" using oc Suc.prems(2) by (rule forest_only_cancels)
    have ch: "f_children (heap ?t self) = f_children (?h self)" by simp
    have lp: "cancel_loop n (insert self held) ?t self (rev (enumerate 0 (f_children (?h self))))
           = Some (r2, s')" using swept(4) .
    note lpx = cancel_loop_exact_aux[OF Suc.IH lp ft ch]
    have r1: "heap s' = (swept (heap ?t) (\<Union>c \<in> set (f_children (?h self)). newly n (heap ?t) c self))
                     (self := (heap ?t self)\<lparr>f_children := []\<rparr>)"
      using lpx by (rule conjunct1)
    have r2: "trace s' = trace ?t @ concat (map (\<lambda>c. sweep_order n (heap ?t) c self) (rev (f_children (?h self))))"
      using lpx by (rule conjunct2)
    have agree: "heap ?t y = ?h y" if "c \<in> set (f_children (?h self))" "y \<in> sub ?h c" for c y
    proof -
      have "y \<noteq> self" using parent_not_below[OF Suc.prems(2) that(1)] that(2) by blast
      then show ?thesis by simp
    qed
    have n2: "newly n (heap ?t) c self = newly n ?h c self" if "c \<in> set (f_children (?h self))" for c
      using agree[OF that] by (rule newly_cong)
    have o2: "sweep_order n (heap ?t) c self = sweep_order n ?h c self" if "c \<in> set (f_children (?h self))" for c
      using agree[OF that] by (rule sweep_order_cong)
    have U: "(\<Union>c \<in> set (f_children (?h self)). newly n (heap ?t) c self)
           = (\<Union>c \<in> set (f_children (?h self)). newly n ?h c self)"
      using n2 by simp
    have M: "map (\<lambda>c. sweep_order n (heap ?t) c self) (rev (f_children (?h self)))
           = map (\<lambda>c. sweep_order n ?h c self) (rev (f_children (?h self)))"
      by (intro map_cong refl) (simp add: o2)
    have cond: "\<not> (f_cancelled (?h self) \<or> (Some cs = f_parent (?h self) \<and> f_shield (?h self)))"
      using swept(2,3) by blast
    have so: "sweep_order (Suc n) ?h self cs
            = self # concat (map (\<lambda>c. sweep_order n ?h c self) (rev (f_children (?h self))))"
      by (simp only: sweep_order.simps if_not_P[OF cond])
    have tr: "trace s' = trace s @ sweep_order (Suc n) ?h self cs"
      unfolding so using r2 by (simp add: M)
    have nw: "newly (Suc n) ?h self cs = insert self (\<Union>c \<in> set (f_children (?h self)). newly n ?h c self)"
      by (simp only: newly.simps if_not_P[OF cond])
    have hp: "heap s' = swept ?h (newly (Suc n) ?h self cs)"
    proof (rule ext)
      fix x
      show "heap s' x = swept ?h (newly (Suc n) ?h self cs) x"
      proof (cases "x = self")
        case True
        then show ?thesis unfolding nw using r1 by (simp add: swept_def)
      next
        case False
        then show ?thesis unfolding nw using r1 U by (simp add: swept_def)
      qed
    qed
    from hp tr show ?thesis by simp
  qed
qed

text \<open>
  The scopes cancelled are the exposed ones; a scope behind a shield is not exposed, and
  every registered descendant is one or the other.
\<close>

lemma exposed_nonempty: "exposed h s x \<Longrightarrow> f_children (h s) \<noteq> []"
  by (induction rule: exposed.induct) auto

lemma newly_nonempty:
  "y \<in> newly k h c origin \<Longrightarrow>
     \<not> f_cancelled (h c) \<and> \<not> (Some origin = f_parent (h c) \<and> f_shield (h c))"
  by (cases k) (auto split: if_splits)

lemma newly_self:
  "\<not> f_cancelled (h c) \<Longrightarrow> \<not> (Some origin = f_parent (h c) \<and> f_shield (h c)) \<Longrightarrow>
     c \<in> newly (Suc k) h c origin"
  by simp

lemma newly_child:
  "\<not> f_cancelled (h x) \<Longrightarrow> \<not> (Some origin = f_parent (h x) \<and> f_shield (h x)) \<Longrightarrow>
   c \<in> set (f_children (h x)) \<Longrightarrow> y \<in> newly k h c x \<Longrightarrow> y \<in> newly (Suc k) h x origin"
  by auto

lemma exposed_swept:
  "exposed h x y \<Longrightarrow> (\<And>p. f_cancelled (h p) \<Longrightarrow> f_children (h p) = []) \<Longrightarrow>
   depth_le d h x \<Longrightarrow> d < k \<Longrightarrow> \<not> f_cancelled (h x) \<Longrightarrow>
   \<not> (Some origin = f_parent (h x) \<and> f_shield (h x)) \<Longrightarrow>
   y \<in> newly k h x origin \<or> f_cancelled (h y)"
proof (induction arbitrary: d k origin rule: exposed.induct)
  case (child c s)
  from child.hyps(1) child.prems(2) obtain d' where d: "d = Suc d'" by (cases d) auto
  with child.prems(3) have "2 \<le> k" by simp
  then obtain k'' where k: "k = Suc (Suc k'')"
    by (cases k; cases "k - 1") auto
  show ?case
  proof (cases "f_cancelled (h c)")
    case True
    then show ?thesis by simp
  next
    case False
    with child.hyps(2) have "c \<in> newly (Suc k'') h c s" by (intro newly_self) simp_all
    with child.prems(4,5) child.hyps(1) have "c \<in> newly (Suc (Suc k'')) h s origin"
      by (rule newly_child)
    then show ?thesis by (simp only: k) simp
  qed
next
  case (below c s x)
  from below.hyps(1) below.prems(2) obtain d' where d: "d = Suc d'" by (cases d) auto
  with below.prems(3) obtain k' where k: "k = Suc k'" "d' < k'"
    by (cases k) auto
  have dc: "depth_le d' h c" using below.prems(2) below.hyps(1) d by simp
  have nc: "\<not> f_cancelled (h c)"
  proof
    assume "f_cancelled (h c)"
    then have "f_children (h c) = []" by (rule below.prems(1))
    with exposed_nonempty[OF below.hyps(3)] show False by simp
  qed
  have nr: "\<not> (Some s = f_parent (h c) \<and> f_shield (h c))" using below.hyps(2) by simp
  from below.IH[OF below.prems(1) dc k(2) nc nr]
  have "x \<in> newly k' h c s \<or> f_cancelled (h x)" .
  then show ?case
  proof
    assume "x \<in> newly k' h c s"
    with below.prems(4,5) below.hyps(1) have "x \<in> newly (Suc k') h s origin"
      by (rule newly_child)
    then show ?thesis by (simp only: k(1)) simp
  next
    assume "f_cancelled (h x)"
    then show ?thesis by simp
  qed
qed

lemma swept_exposed:
  "y \<in> newly k h x origin \<Longrightarrow> forest h \<Longrightarrow> y = x \<or> exposed h x y"
proof (induction k arbitrary: x origin)
  case 0
  then show ?case by simp
next
  case (Suc k)
  from newly_nonempty[OF Suc.prems(1)] Suc.prems(1)
  have "y = x \<or> (\<exists>c \<in> set (f_children (h x)). y \<in> newly k h c x)"
    by (auto split: if_splits)
  then show ?case
  proof
    assume "y = x"
    then show ?thesis by simp
  next
    assume "\<exists>c \<in> set (f_children (h x)). y \<in> newly k h c x"
    then obtain c where c: "c \<in> set (f_children (h x))" "y \<in> newly k h c x" by blast
    have "f_parent (h c) = Some x" using Suc.prems(2) c(1) by (rule forest_child)
    with newly_nonempty[OF c(2)] have ns: "\<not> f_shield (h c)" by simp
    from Suc.IH[OF c(2) Suc.prems(2)] have "y = c \<or> exposed h c y" .
    then have "exposed h x y"
    proof
      assume "y = c"
      with c(1) ns show ?thesis by (simp add: exposed.child)
    next
      assume "exposed h c y"
      with c(1) ns show ?thesis by (rule exposed.below)
    qed
    then show ?thesis by simp
  qed
qed

lemma exposed_parent:
  "exposed h s x \<Longrightarrow> forest h \<Longrightarrow>
     \<not> f_shield (h x) \<and> (f_parent (h x) = Some s \<or> (\<exists>p. f_parent (h x) = Some p \<and> exposed h s p))"
proof (induction rule: exposed.induct)
  case (child c s)
  then show ?case by (simp add: forest_child)
next
  case (below c s x)
  from below.IH[OF below.prems] have ns: "\<not> f_shield (h x)"
    and d: "f_parent (h x) = Some c \<or> (\<exists>p. f_parent (h x) = Some p \<and> exposed h c p)" by simp_all
  have ec: "exposed h s c" using below.hyps(1,2) by (rule exposed.child)
  from d have "\<exists>p. f_parent (h x) = Some p \<and> exposed h s p"
  proof
    assume "f_parent (h x) = Some c"
    with ec show ?thesis by blast
  next
    assume "\<exists>p. f_parent (h x) = Some p \<and> exposed h c p"
    then obtain p where p: "f_parent (h x) = Some p" "exposed h c p" by blast
    from below.hyps(1,2) p(2) have "exposed h s p" by (rule exposed.below)
    with p(1) show ?thesis by blast
  qed
  with ns show ?case by blast
qed

lemma behind_shield_desc: "behind_shield h s x \<Longrightarrow> desc h s x"
  by (induction rule: behind_shield.induct) (auto intro: desc.step)

lemma behind_shield_not_exposed:
  "behind_shield h s x \<Longrightarrow> forest h \<Longrightarrow> \<not> exposed h s x"
proof (induction rule: behind_shield.induct)
  case (shield c)
  then show ?case using exposed_parent by blast
next
  case (under x c)
  show ?case
  proof
    assume "exposed h s c"
    from exposed_parent[OF this under.prems]
    have d: "f_parent (h c) = Some s \<or> (\<exists>p. f_parent (h c) = Some p \<and> exposed h s p)" by simp
    have px: "f_parent (h c) = Some x" using under.prems under.hyps(2) by (rule forest_child)
    from d show False
    proof
      assume "f_parent (h c) = Some s"
      with px have "x = s" by simp
      with behind_shield_desc[OF under.hyps(1)] have "desc h s s" by simp
      with forest_acyclic[OF under.prems] show False by simp
    next
      assume "\<exists>p. f_parent (h c) = Some p \<and> exposed h s p"
      with px have "exposed h s x" by auto
      with under.IH[OF under.prems] show False by simp
    qed
  qed
qed

lemma exposed_append:
  "exposed h s x \<Longrightarrow> c \<in> set (f_children (h x)) \<Longrightarrow> \<not> f_shield (h c) \<Longrightarrow> exposed h s c"
proof (induction rule: exposed.induct)
  case (child c' s)
  from child.prems have "exposed h c' c" by (rule exposed.child)
  with child.hyps show ?case by (rule exposed.below)
next
  case (below c' s x)
  from below.IH[OF below.prems] have "exposed h c' c" .
  with below.hyps(1,2) show ?case by (rule exposed.below)
qed

lemma desc_exposed_or_behind:
  "desc h s x \<Longrightarrow> exposed h s x \<or> behind_shield h s x"
proof (induction rule: desc.induct)
  case (child c)
  show ?case
  proof (cases "f_shield (h c)")
    case True
    have "desc h s c" using child by (rule desc.child)
    then show ?thesis using True by (simp add: behind_shield.shield)
  next
    case False
    with child show ?thesis by (simp add: exposed.child)
  qed
next
  case (step x c)
  from step.IH show ?case
  proof
    assume e: "exposed h s x"
    show ?thesis
    proof (cases "f_shield (h c)")
      case True
      have "desc h s c" using step.hyps(1,2) by (rule desc.step)
      then show ?thesis using True by (simp add: behind_shield.shield)
    next
      case False
      with exposed_append[OF e step.hyps(2)] show ?thesis by simp
    qed
  next
    assume "behind_shield h s x"
    then have "behind_shield h s c" using step.hyps(2) by (rule behind_shield.under)
    then show ?thesis by simp
  qed
qed

lemmas ev6 = ev5 family_objs_def family_def

lemma family_run:
  "run 1 (start family_objs clock0)
     [Enter 0, Enter 1, Exit 1 False, Enter 2, Enter 3, Exit 3 False, Exit 2 False, Enter 4]
   = Some family"
  by (simp add: ev6)

text \<open>
  C1 as stated fails for a scope that is not shielded itself but registered below a
  shielded one: \<open>_cancel\<close> of the shielded scope returns at its shield test without
  visiting its children. In \<open>family\<close> scope 3 is registered under the shielded scope 2,
  a child of scope 0; after \<open>cancel\<close> of scope 0 the unshielded descendant 3 is not
  cancelled.
\<close>

theorem unshielded_below_shield_not_cancelled_counterexample:
  "desc (heap family) 0 3 \<and> \<not> f_shield (heap family 3) \<and>
   fst (the (cancel 3 family 0)) = Return True \<and>
   \<not> cancelled (snd (the (cancel 3 family 0))) 3"
proof -
  have "desc (heap family) 0 2" by (rule desc.child) (simp add: ev6)
  then have "desc (heap family) 0 3" by (rule desc.step) (simp add: ev6)
  moreover have "\<not> f_shield (heap family 3)" by (simp add: ev6)
  moreover have "fst (the (cancel 3 family 0)) = Return True"
    by (simp add: numeral_3_eq_3 ev6 del_at_def)
  moreover have "\<not> cancelled (snd (the (cancel 3 family 0))) 3"
    by (simp add: numeral_3_eq_3 ev6 del_at_def)
  ultimately show ?thesis by blast
qed

text \<open>
  C1, as amended. On a reachable state \<open>cancel\<close> returns \<open>True\<close> for every fuel above the
  depth of the children lists, always with the same final state. When it has returned,
  the scope is cancelled; every scope registered below it at the call that is neither
  shielded nor below a shielded descendant is cancelled; every shielded descendant and
  every scope below one is exactly as it was (so uncancelled if it was); and \<open>_cancel\<close>
  has been invoked in the order \<open>sweep_order\<close>: depth first along the children lists
  of the heap at the call, the children of a scope taken last registered first, a scope
  that is already cancelled or refuses behind its shield visited without its children.
\<close>

theorem cancel_sweeps_subtree:
  assumes "scope_inv s"
  shows "(\<exists>d. depth_le d (heap s) self) \<and>
         (\<forall>d. depth_le d (heap s) self \<longrightarrow>
            (\<exists>t. (\<forall>k>d. cancel k s self = Some (Return True, t) \<and>
                         trace t = trace s @ sweep_order k (heap s) self self) \<and>
                 cancelled t self \<and>
                 (\<forall>x. desc (heap s) self x \<and> \<not> behind_shield (heap s) self x \<longrightarrow> cancelled t x) \<and>
                 (\<forall>x. behind_shield (heap s) self x \<longrightarrow> heap t x = heap s x)))"
proof (intro conjI allI impI)
  from assms have cs: "core s" by (simp add: scope_inv_def)
  from wf_depth[OF core_wf[OF cs]] show "\<exists>d. depth_le d (heap s) self" by blast
next
  fix d assume dl: "depth_le d (heap s) self"
  let ?h = "heap s"
  from assms have cs: "core s" by (simp add: scope_inv_def)
  have wf: "wf_heap ?h" using cs by (rule core_wf)
  have f: "forest ?h" using wf by (rule wf_forest)
  have nr: "\<not> (Some self = f_parent (?h self) \<and> f_shield (?h self))"
    using core_parent[OF cs, of self self] by auto
  from u_cancel_returns[OF dl, of "{}" self] obtain r t
    where u: "u_cancel (Suc d) {} s self self = Some (r, t)" by blast
  from u_cancel_tidy[OF u] obtain b where r: "r = Return b" by blast
  have b: "b"
  proof (rule ccontr)
    assume "\<not> b"
    with u r have "u_cancel (Suc d) {} s self self = Some (Return False, t)"
      by (simp del: u_cancel.simps)
    from u_cancel_False[OF this] nr show False by simp
  qed
  have run: "cancel k s self = Some (Return True, t) \<and>
             trace t = trace s @ sweep_order k ?h self self" if "d < k" for k
  proof -
    from that have "Suc d \<le> k" by simp
    from u_cancel_fuel[OF u this] have uk: "u_cancel k {} s self self = Some (r, t)" .
    from u_cancel_exact[OF uk f] uk r b show ?thesis by (simp add: cancel_def)
  qed
  let ?N = "newly (Suc d) ?h self self"
  have ht: "heap t = swept ?h ?N" using u_cancel_exact[OF u f] by simp
  have ct: "cancelled t self"
  proof (cases "f_cancelled (?h self)")
    case True
    then show ?thesis by (simp add: cancelled_def ht swept_def)
  next
    case False
    from False nr have "self \<in> ?N" by (rule newly_self)
    then show ?thesis by (simp add: cancelled_def ht swept_def)
  qed
  have ex: "cancelled t x" if "exposed ?h self x" for x
  proof -
    have nc: "\<not> f_cancelled (?h self)"
    proof
      assume "f_cancelled (?h self)"
      with wf have "f_children (?h self) = []" by (rule wf_cancelled)
      with exposed_nonempty[OF that] show False by simp
    qed
    have dd: "d < Suc d" by simp
    have "x \<in> newly (Suc d) ?h self self \<or> f_cancelled (?h x)"
      using that wf_cancelled[OF wf] dl dd nc nr by (rule exposed_swept)
    then show ?thesis by (auto simp: cancelled_def ht swept_def)
  qed
  have bh: "heap t x = ?h x" if "behind_shield ?h self x" for x
  proof -
    have "x \<notin> ?N"
    proof
      assume "x \<in> ?N"
      from swept_exposed[OF this f] have "x = self \<or> exposed ?h self x" .
      then show False
      proof
        assume "x = self"
        with behind_shield_desc[OF that] have "desc ?h self self" by simp
        with forest_acyclic[OF f] show False by simp
      next
        assume "exposed ?h self x"
        with behind_shield_not_exposed[OF that f] show False by simp
      qed
    qed
    then show ?thesis by (simp add: ht swept_out)
  qed
  show "\<exists>t. (\<forall>k>d. cancel k s self = Some (Return True, t) \<and>
                         trace t = trace s @ sweep_order k (heap s) self self) \<and>
                 cancelled t self \<and>
                 (\<forall>x. desc (heap s) self x \<and> \<not> behind_shield (heap s) self x \<longrightarrow> cancelled t x) \<and>
                 (\<forall>x. behind_shield (heap s) self x \<longrightarrow> heap t x = heap s x)"
  proof (intro exI[of _ t] conjI allI impI)
    fix k assume "d < k"
    from run[OF this] show "cancel k s self = Some (Return True, t)"
      and "trace t = trace s @ sweep_order k (heap s) self self" by simp_all
  next
    show "cancelled t self" by (rule ct)
  next
    fix x assume "desc (heap s) self x \<and> \<not> behind_shield (heap s) self x"
    with desc_exposed_or_behind[of "heap s" self x] have "exposed (heap s) self x" by blast
    then show "cancelled t x" by (rule ex)
  next
    fix x assume "behind_shield (heap s) self x"
    then show "heap t x = heap s x" by (rule bh)
  qed
qed

theorem cancel_sweeps_subtree_witness:
  "scope_inv family \<and> depth_le 2 (heap family) 0 \<and> (2::nat) < 3 \<and>
   desc (heap family) 0 1 \<and> \<not> behind_shield (heap family) 0 1 \<and>
   desc (heap family) 0 4 \<and> \<not> behind_shield (heap family) 0 4 \<and>
   behind_shield (heap family) 0 2 \<and> behind_shield (heap family) 0 3 \<and>
   sweep_order 3 (heap family) 0 0 = [0, 4, 2, 1] \<and>
   (\<exists>t. cancel 3 family 0 = Some (Return True, t) \<and> trace t = [0, 4, 2, 1] \<and>
        cancelled t 0 \<and> cancelled t 1 \<and> cancelled t 4 \<and>
        heap t 2 = heap family 2 \<and> heap t 3 = heap family 3)"
proof -
  have a: "scope_inv family"
    by (rule reachable_inv[OF _ family_run]) (simp add: family_objs_def)
  from a have f: "forest (heap family)"
    by (simp add: scope_inv_def core_wf wf_forest)
  have d: "depth_le 2 (heap family) 0"
    by (simp add: numeral_2_eq_2 ev6)
  have l: "(2::nat) < 3" by simp
  have e1: "exposed (heap family) 0 1"
    by (rule exposed.child) (simp_all add: ev6)
  have e4: "exposed (heap family) 0 4"
    by (rule exposed.child) (simp_all add: ev6)
  have d1: "desc (heap family) 0 1"
    by (rule desc.child) (simp add: ev6)
  have d4: "desc (heap family) 0 4"
    by (rule desc.child) (simp add: ev6)
  have n1: "\<not> behind_shield (heap family) 0 1"
    using behind_shield_not_exposed[OF _ f] e1 by blast
  have n4: "\<not> behind_shield (heap family) 0 4"
    using behind_shield_not_exposed[OF _ f] e4 by blast
  have d2: "desc (heap family) 0 2"
    by (rule desc.child) (simp add: ev6)
  have b2: "behind_shield (heap family) 0 2"
    using d2 by (rule behind_shield.shield) (simp add: ev6)
  have b3: "behind_shield (heap family) 0 3"
    using b2 by (rule behind_shield.under) (simp add: ev6)
  have o: "sweep_order 3 (heap family) 0 0 = [0, 4, 2, 1]"
    by (simp add: numeral_3_eq_3 ev6)
  have tr: "trace family = []" by (simp add: ev6)
  from cancel_sweeps_subtree[OF a, of 0] d
  obtain t where t: "\<forall>k>2. cancel k family 0 = Some (Return True, t) \<and>
                         trace t = trace family @ sweep_order k (heap family) 0 0"
    "cancelled t 0"
    "\<forall>x. desc (heap family) 0 x \<and> \<not> behind_shield (heap family) 0 x \<longrightarrow> cancelled t x"
    "\<forall>x. behind_shield (heap family) 0 x \<longrightarrow> heap t x = heap family x"
    by blast
  from t(1) l have c: "cancel 3 family 0 = Some (Return True, t)"
    and "trace t = trace family @ sweep_order 3 (heap family) 0 0" by blast+
  then have tt: "trace t = [0, 4, 2, 1]" by (simp only: o tr append_Nil)
  from t(3) d1 n1 d4 n4 have c1: "cancelled t 1" and c4: "cancelled t 4" by blast+
  from t(4) b2 b3 have h2: "heap t 2 = heap family 2" and h3: "heap t 3 = heap family 3" by blast+
  from c tt t(2) c1 c4 h2 h3
  have "\<exists>t. cancel 3 family 0 = Some (Return True, t) \<and> trace t = [0, 4, 2, 1] \<and>
        cancelled t 0 \<and> cancelled t 1 \<and> cancelled t 4 \<and>
        heap t 2 = heap family 2 \<and> heap t 3 = heap family 3" by blast
  with a d l d1 n1 d4 n4 b2 b3 o show ?thesis by blast
qed

text \<open>
  C2 as stated fails for a shielded child: entered under an already cancelled parent it
  is not registered, but its \<open>_cancel(parent)\<close> is refused by the shield, so it returns
  from \<open>__enter__\<close> uncancelled, with the cancelled scope as its parent, an unbounded
  remaining timeout and a passing \<open>check\<close>.
\<close>

theorem shielded_child_live_under_dead_parent_counterexample:
  "f_cancelled (heap dead_root_shielded 0) \<and> current dead_root_shielded = Some 0 \<and>
   f_entered (heap dead_root_shielded 1) = None \<and>
   fst (the (enter 1 dead_root_shielded 1)) = Return 1 \<and>
   f_parent (heap (snd (the (enter 1 dead_root_shielded 1))) 1) = Some 0 \<and>
   cancelled (snd (the (enter 1 dead_root_shielded 1))) 0 \<and>
   \<not> cancelled (snd (the (enter 1 dead_root_shielded 1))) 1 \<and>
   fst (timeout (snd (the (enter 1 dead_root_shielded 1))) 1) = Return PInf \<and>
   fst (check (snd (the (enter 1 dead_root_shielded 1))) 1) = Return ()"
  by (simp add: ev6 dead_root_shielded_def)

end
